theory Spec2Isabelle
  imports Complex_Main "HOL-Library.Log_Nat"
begin

section \<open>Python numbers\<close>

text \<open>
  The engine mixes Python integers (unbounded: \<open>int\<close>, and \<open>nat\<close> for lengths) with
  Python floats, which appear as soon as \<open>/\<close> is applied. A float is modelled by the
  rational number it denotes, and every float operation rounds its exact result to 53
  significant bits, ties to even, as IEEE 754 binary64 does. The exponent range is not
  modelled (no overflow to infinity, no subnormal numbers); the model therefore agrees
  with CPython as long as every intermediate result is zero or has a magnitude between
  \<open>2\<^sup>-\<^sup>1\<^sup>0\<^sup>2\<^sup>2\<close> and \<open>2\<^sup>1\<^sup>0\<^sup>2\<^sup>4\<close>, which only astronomically large configured
  weights can violate.
\<close>

definition round_half_even :: "rat \<Rightarrow> int" where
  "round_half_even y =
     (let f = \<lfloor>y\<rfloor>; r = y - of_int f
      in if r < 1/2 then f else if 1/2 < r then f + 1 else if even f then f else f + 1)"

text \<open>\<open>ilog2 x\<close> is the binary exponent of a positive rational: \<open>2\<^sup>e \<le> x < 2\<^sup>e\<^sup>+\<^sup>1\<close>.\<close>

definition ilog2 :: "rat \<Rightarrow> int" where
  "ilog2 x =
     (let (p, q) = quotient_of x; d = bitlen p - bitlen q
      in if 2 powi d \<le> x then d else d - 1)"

definition float_round :: "rat \<Rightarrow> rat" where
  "float_round x =
     (if x = 0 then 0
      else let q = 2 powi (ilog2 \<bar>x\<bar> - 52)
           in of_int (round_half_even (x / q)) * q)"

text \<open>
  Python's \<open>a / b\<close>, \<open>a + b\<close>, \<open>a - b\<close> and \<open>a * b\<close> with a float result. Every
  division of the engine is guarded in the source (\<open>m * f > 0\<close>, \<open>max(1, fp)\<close>,
  \<open>service_weight > 0\<close>, \<open>service_count > 0\<close>) and the guards are kept in the model, so
  \<open>truediv\<close> is never applied to a zero divisor.
\<close>

definition truediv :: "rat \<Rightarrow> rat \<Rightarrow> rat" where
  "truediv a b = float_round (a / b)"

definition float_add :: "rat \<Rightarrow> rat \<Rightarrow> rat" where
  "float_add a b = float_round (a + b)"

definition float_sub :: "rat \<Rightarrow> rat \<Rightarrow> rat" where
  "float_sub a b = float_round (a - b)"

definition float_mul :: "rat \<Rightarrow> rat \<Rightarrow> rat" where
  "float_mul a b = float_round (a * b)"

section \<open>Data model\<close>

text \<open>
  An entry of \<open>self.operations\<close>: the dictionary \<open>{"read": [...], "write": [...]}\<close>
  (the field names carry a prefix because \<open>write\<close> is an Isar keyword).
\<close>

record operation =
  op_read :: "string list"
  op_write :: "string list"

text \<open>An element of a scheme's service list: \<open>{"name": ..., "use_cases": [...]}\<close>.\<close>

record service =
  name :: string
  use_cases :: "string list"

text \<open>The lines the engine prints, one constructor per \<open>print\<close> call of the source.\<close>

datatype error = ValueError

datatype message =
    Warning_no_schemes
  | Calculating_scheme string
  | Error_processing_scheme string error
  | Warning_no_use_cases string
  | Warning_operation_not_found string

text \<open>
  The calculator instance with the attributes \<open>__init__\<close> sets. \<open>schemes\<close> is an
  insertion-ordered dictionary whose values are \<open>{"services": [...]}\<close>; it is kept as
  the list of its items. The console the methods print to is carried along as
  \<open>stdout\<close>, so that printing is a visible state change.
\<close>

record calculator =
  entities :: "string \<rightharpoonup> string list"
  operations :: "string \<rightharpoonup> operation"
  op_type_map :: "string \<rightharpoonup> string"
  schemes :: "(string \<times> service list) list"
  op_weights :: "string \<rightharpoonup> int"
  stdout :: "message list"

definition print :: "message \<Rightarrow> calculator \<Rightarrow> calculator" where
  "print m c = c\<lparr>stdout := stdout c @ [m]\<rparr>"

text \<open>The per-service accumulators of the first loop over the use cases.\<close>

record params =
  all_params :: "string set"
  param_access_count :: "(string \<times> nat) list"
  read_params :: "string set"
  write_params :: "string set"

text \<open>An entry of \<open>operation_details\<close>, before and after the FGS loop has added two keys.\<close>

record op_detail =
  Operation :: string
  IPR :: nat
  OPR :: nat
  FP :: nat
  CP :: nat
  OT :: int
  DGS :: rat

record op_detail_fgs = op_detail +
  FGS :: rat
  SGM_Operation :: rat

text \<open>A row of the detailed result; field \<open>rec_X\<close> is the key \<open>"X"\<close> of the source.\<close>

record metric_record =
  rec_Scheme :: string
  rec_Service :: string
  rec_NOO :: nat
  rec_LCOM :: rat
  rec_SGM :: rat
  rec_MF :: nat
  rec_M :: nat
  rec_F :: nat
  rec_Operation :: string
  rec_IPR :: nat
  rec_OPR :: nat
  rec_FP :: nat
  rec_CP :: nat
  rec_OT :: int
  rec_O :: int
  rec_DGS :: rat
  rec_FGS :: rat
  rec_SGM_Operation :: rat

record scheme_metrics =
  ALCOM :: rat
  ASGM :: rat
  Max_NOO :: nat

text \<open>A row of the scheme summary; \<open>sum_NOO_max\<close> is the key \<open>"NOO(max)"\<close>.\<close>

record summary_row =
  sum_Scheme :: string
  sum_ALCOM :: rat
  sum_ASGM :: rat
  sum_NOO_max :: nat

section \<open>calculate_scheme_metrics\<close>

text \<open>\<open>param_access_count[param] += 1\<close> on a \<open>defaultdict(int)\<close>.\<close>

fun incr :: "string \<Rightarrow> (string \<times> nat) list \<Rightarrow> (string \<times> nat) list" where
  "incr k [] = [(k, 1)]"
| "incr k ((k', n) # d) = (if k = k' then (k', n + 1) # d else (k', n) # incr k d)"

text \<open>The two inner iterations over an operation's read and write lists.\<close>

fun add_read :: "string list \<Rightarrow> params \<Rightarrow> params" where
  "add_read [] a = a"
| "add_read (param # ps) a =
     add_read ps (a\<lparr>all_params := insert param (all_params a),
                    param_access_count := incr param (param_access_count a),
                    read_params := insert param (read_params a)\<rparr>)"

fun add_write :: "string list \<Rightarrow> params \<Rightarrow> params" where
  "add_write [] a = a"
| "add_write (param # ps) a =
     add_write ps (a\<lparr>all_params := insert param (all_params a),
                     param_access_count := incr param (param_access_count a),
                     write_params := insert param (write_params a)\<rparr>)"

text \<open>The first loop over the use cases: unknown names are reported and skipped.\<close>

fun collect_params :: "string list \<Rightarrow> params \<Rightarrow> calculator \<Rightarrow> params \<times> calculator" where
  "collect_params [] a c = (a, c)"
| "collect_params (uc # ucs) a c =
     (case operations c uc of
        None \<Rightarrow> collect_params ucs a (print (Warning_operation_not_found uc) c)
      | Some op \<Rightarrow> collect_params ucs (add_write (op_write op) (add_read (op_read op) a)) c)"

text \<open>
  The second loop over the use cases, with the accumulators \<open>service_weight\<close> and
  \<open>operation_details\<close>; \<open>rp\<close> and \<open>wp\<close> are the finished \<open>read_params\<close> and
  \<open>write_params\<close>. Unknown names are skipped silently, before the weight is added.
\<close>

fun operation_loop ::
  "calculator \<Rightarrow> string set \<Rightarrow> string set \<Rightarrow> string list \<Rightarrow> int \<times> op_detail list
     \<Rightarrow> int \<times> op_detail list" where
  "operation_loop c rp wp [] acc = acc"
| "operation_loop c rp wp (uc # ucs) (service_weight, operation_details) =
     (case operations c uc of
        None \<Rightarrow> operation_loop c rp wp ucs (service_weight, operation_details)
      | Some op \<Rightarrow>
          let op_type = (case op_type_map c uc of None \<Rightarrow> ''Read'' | Some t \<Rightarrow> t);
              ot = (case op_weights c op_type of None \<Rightarrow> 1 | Some w \<Rightarrow> w);
              uc_read = set (op_read op);
              uc_write = set (op_write op);
              ipr = card uc_read;
              opr = card uc_write;
              fp = (if rp \<noteq> {} then card rp else 1);
              cp = (if wp \<noteq> {} then card wp else 1);
              dgs = min 1 (float_add (truediv (of_nat ipr) (of_nat (max 1 fp)))
                                     (truediv (of_nat opr) (of_nat (max 1 cp))))
          in operation_loop c rp wp ucs
               (service_weight + ot,
                operation_details @
                  [\<lparr>Operation = uc, IPR = ipr, OPR = opr, FP = fp, CP = cp, OT = ot,
                    DGS = dgs\<rparr>]))"

text \<open>The third loop: FGS and SGM_Operation are added to each entry, SGM accumulates.\<close>

fun fgs_loop :: "int \<Rightarrow> op_detail list \<Rightarrow> rat \<Rightarrow> op_detail_fgs list \<times> rat" where
  "fgs_loop service_weight [] sgm = ([], sgm)"
| "fgs_loop service_weight (op # ops) sgm =
     (let fgs = (if service_weight > 0
                 then truediv (of_int (OT op)) (of_int service_weight) else 0);
          sgm_op = float_mul (DGS op) fgs;
          (ops', sgm') = fgs_loop service_weight ops (float_add sgm sgm_op)
      in (op_detail.extend op (op_detail_fgs.fields fgs sgm_op) # ops', sgm'))"

text \<open>The fourth loop builds one result row per entry of \<open>operation_details\<close>.\<close>

definition result_row ::
  "string \<Rightarrow> string \<Rightarrow> nat \<Rightarrow> rat \<Rightarrow> rat \<Rightarrow> nat \<Rightarrow> nat \<Rightarrow> nat \<Rightarrow> int \<Rightarrow> op_detail_fgs
     \<Rightarrow> metric_record" where
  "result_row scheme_name service_name noo lcom sgm mf_sum m f service_weight op =
     \<lparr>rec_Scheme = scheme_name, rec_Service = service_name, rec_NOO = noo,
      rec_LCOM = lcom, rec_SGM = sgm, rec_MF = mf_sum, rec_M = m, rec_F = f,
      rec_Operation = Operation op, rec_IPR = IPR op, rec_OPR = OPR op, rec_FP = FP op,
      rec_CP = CP op, rec_OT = OT op, rec_O = service_weight, rec_DGS = DGS op,
      rec_FGS = FGS op, rec_SGM_Operation = SGM_Operation op\<rparr>"

text \<open>
  The body of the loop over the services, from \<open>noo = len(use_cases)\<close> on, for a service
  whose use-case list is not empty: the rows to append and the service's LCOM and SGM.
\<close>

definition service_body ::
  "string \<Rightarrow> service \<Rightarrow> calculator \<Rightarrow> (metric_record list \<times> rat \<times> rat) \<times> calculator" where
  "service_body scheme_name service c =
     (let noo = length (use_cases service);
          (p, c') = collect_params (use_cases service)
                      \<lparr>all_params = {}, param_access_count = [], read_params = {},
                       write_params = {}\<rparr> c;
          mf_sum = sum_list (map snd (param_access_count p));
          m = noo;
          f = card (all_params p);
          lcom = (if m * f > 0
                  then float_sub 1 (truediv (of_nat mf_sum) (of_nat (m * f))) else 0);
          (service_weight, operation_details) =
             operation_loop c' (read_params p) (write_params p) (use_cases service) (0, []);
          (ops, sgm) = fgs_loop service_weight operation_details 0
      in ((map (result_row scheme_name (name service) noo lcom sgm mf_sum m f
                  service_weight) ops,
           lcom, sgm), c'))"

fun service_loop ::
  "string \<Rightarrow> service list \<Rightarrow> metric_record list \<times> scheme_metrics \<Rightarrow> calculator
     \<Rightarrow> (metric_record list \<times> scheme_metrics) \<times> calculator" where
  "service_loop scheme_name [] acc c = (acc, c)"
| "service_loop scheme_name (service # rest) (results, sm) c =
     (if use_cases service = []
      then service_loop scheme_name rest (results, sm)
             (print (Warning_no_use_cases (name service)) c)
      else
        let sm1 = sm\<lparr>Max_NOO := max (Max_NOO sm) (length (use_cases service))\<rparr>;
            ((rows, lcom, sgm), c') = service_body scheme_name service c
        in service_loop scheme_name rest
             (results @ rows,
              sm1\<lparr>ALCOM := float_add (ALCOM sm1) lcom, ASGM := float_add (ASGM sm1) sgm\<rparr>)
             c')"

definition calculate_scheme_metrics ::
  "string \<Rightarrow> service list \<Rightarrow> calculator
     \<Rightarrow> (error + metric_record list \<times> scheme_metrics) \<times> calculator" where
  "calculate_scheme_metrics scheme_name services c =
     (if services = [] then (Inl ValueError, c)
      else
        let service_count = length services;
            ((results, sm), c') =
               service_loop scheme_name services
                 ([], \<lparr>ALCOM = 0, ASGM = 0, Max_NOO = 0\<rparr>) c;
            sm' = (if service_count > 0
                   then sm\<lparr>ALCOM := truediv (ALCOM sm) (of_nat service_count),
                           ASGM := truediv (ASGM sm) (of_nat service_count)\<rparr>
                   else sm)
        in (Inr (results, sm'), c'))"

section \<open>calculate_metrics\<close>

text \<open>
  The loop over \<open>self.schemes.items()\<close>; the \<open>except\<close> branch prints and continues, and
  nothing of a failed scheme has been appended by then.
\<close>

fun scheme_loop ::
  "(string \<times> service list) list \<Rightarrow> metric_record list \<times> summary_row list \<Rightarrow> calculator
     \<Rightarrow> (metric_record list \<times> summary_row list) \<times> calculator" where
  "scheme_loop [] acc c = (acc, c)"
| "scheme_loop ((scheme_name, services) # rest) (all_results, scheme_summary) c =
     (case calculate_scheme_metrics scheme_name services
             (print (Calculating_scheme scheme_name) c) of
        (Inl e, c') \<Rightarrow>
          scheme_loop rest (all_results, scheme_summary)
            (print (Error_processing_scheme scheme_name e) c')
      | (Inr (scheme_results, sm), c') \<Rightarrow>
          scheme_loop rest
            (all_results @ scheme_results,
             scheme_summary @
               [\<lparr>sum_Scheme = scheme_name, sum_ALCOM = ALCOM sm, sum_ASGM = ASGM sm,
                 sum_NOO_max = Max_NOO sm\<rparr>])
            c')"

definition calculate_metrics ::
  "calculator \<Rightarrow> (metric_record list \<times> summary_row list) \<times> calculator" where
  "calculate_metrics c =
     (if schemes c = [] then (([], []), print Warning_no_schemes c)
      else scheme_loop (schemes c) ([], []) c)"

section \<open>Reference notions\<close>

definition service_read_attrs :: "calculator \<Rightarrow> string list \<Rightarrow> string set" where
  "service_read_attrs c ucs =
     (\<Union>uc\<in>set ucs. case operations c uc of None \<Rightarrow> {} | Some op \<Rightarrow> set (op_read op))"

definition service_write_attrs :: "calculator \<Rightarrow> string list \<Rightarrow> string set" where
  "service_write_attrs c ucs =
     (\<Union>uc\<in>set ucs. case operations c uc of None \<Rightarrow> {} | Some op \<Rightarrow> set (op_write op))"

definition access_count :: "calculator \<Rightarrow> string list \<Rightarrow> nat" where
  "access_count c ucs =
     (\<Sum>uc\<leftarrow>ucs. case operations c uc of None \<Rightarrow> 0
                 | Some op \<Rightarrow> length (op_read op) + length (op_write op))"

definition use_case_weight :: "calculator \<Rightarrow> string \<Rightarrow> int" where
  "use_case_weight c uc =
     (case op_weights c (case op_type_map c uc of None \<Rightarrow> ''Read'' | Some t \<Rightarrow> t) of
        None \<Rightarrow> 1 | Some w \<Rightarrow> w)"

definition known :: "calculator \<Rightarrow> string list \<Rightarrow> string list" where
  "known c ucs = filter (\<lambda>uc. operations c uc \<noteq> None) ucs"

definition unknown :: "calculator \<Rightarrow> string list \<Rightarrow> string list" where
  "unknown c ucs = filter (\<lambda>uc. operations c uc = None) ucs"

text \<open>The entry one iteration of the second loop appends for a known use case.\<close>

definition detail_entry ::
  "calculator \<Rightarrow> string set \<Rightarrow> string set \<Rightarrow> string \<Rightarrow> operation \<Rightarrow> op_detail" where
  "detail_entry c rp wp uc op =
     \<lparr>Operation = uc, IPR = card (set (op_read op)), OPR = card (set (op_write op)),
      FP = (if rp \<noteq> {} then card rp else 1), CP = (if wp \<noteq> {} then card wp else 1),
      OT = use_case_weight c uc,
      DGS = min 1 (float_add
              (truediv (of_nat (card (set (op_read op))))
                 (of_nat (max 1 (if rp \<noteq> {} then card rp else 1))))
              (truediv (of_nat (card (set (op_write op))))
                 (of_nat (max 1 (if wp \<noteq> {} then card wp else 1)))))\<rparr>"

text \<open>The entry the third loop makes of an entry of \<open>operation_details\<close>.\<close>

definition fgs_entry :: "int \<Rightarrow> op_detail \<Rightarrow> op_detail_fgs" where
  "fgs_entry service_weight op =
     (let fgs = (if service_weight > 0
                 then truediv (of_int (OT op)) (of_int service_weight) else 0)
      in op_detail.extend op (op_detail_fgs.fields fgs (float_mul (DGS op) fgs)))"

text \<open>What the body of the service loop computes, in terms of the notions above.\<close>

definition lcom_of :: "nat \<Rightarrow> nat \<Rightarrow> nat \<Rightarrow> rat" where
  "lcom_of mf m f =
     (if m * f > 0 then float_sub 1 (truediv (of_nat mf) (of_nat (m * f))) else 0)"

definition service_attrs :: "calculator \<Rightarrow> string list \<Rightarrow> string set" where
  "service_attrs c ucs = service_read_attrs c ucs \<union> service_write_attrs c ucs"

definition service_weight_of :: "calculator \<Rightarrow> string list \<Rightarrow> int" where
  "service_weight_of c ucs = (\<Sum>uc\<leftarrow>known c ucs. use_case_weight c uc)"

definition service_details :: "calculator \<Rightarrow> string list \<Rightarrow> op_detail list" where
  "service_details c ucs =
     snd (operation_loop c (service_read_attrs c ucs) (service_write_attrs c ucs) ucs (0, []))"

definition service_ops :: "calculator \<Rightarrow> string list \<Rightarrow> op_detail_fgs list" where
  "service_ops c ucs = map (fgs_entry (service_weight_of c ucs)) (service_details c ucs)"

definition service_lcom :: "calculator \<Rightarrow> service \<Rightarrow> rat" where
  "service_lcom c s =
     lcom_of (access_count c (use_cases s)) (length (use_cases s))
       (card (service_attrs c (use_cases s)))"

definition service_sgm :: "calculator \<Rightarrow> service \<Rightarrow> rat" where
  "service_sgm c s =
     foldl (\<lambda>a p. float_add a (SGM_Operation p)) 0 (service_ops c (use_cases s))"

definition service_rows :: "string \<Rightarrow> calculator \<Rightarrow> service \<Rightarrow> metric_record list" where
  "service_rows scheme_name c s =
     map (result_row scheme_name (name s) (length (use_cases s)) (service_lcom c s)
            (service_sgm c s) (access_count c (use_cases s)) (length (use_cases s))
            (card (service_attrs c (use_cases s))) (service_weight_of c (use_cases s)))
       (service_ops c (use_cases s))"

definition service_messages :: "calculator \<Rightarrow> service \<Rightarrow> message list" where
  "service_messages c s =
     (if use_cases s = [] then [Warning_no_use_cases (name s)]
      else map Warning_operation_not_found (unknown c (use_cases s)))"

definition processed :: "service list \<Rightarrow> service list" where
  "processed services = filter (\<lambda>s. use_cases s \<noteq> []) services"

text \<open>What one scheme contributes to the two collections and to the console.\<close>

definition scheme_rows :: "calculator \<Rightarrow> string \<times> service list \<Rightarrow> metric_record list" where
  "scheme_rows c sch =
     (case fst (calculate_scheme_metrics (fst sch) (snd sch) c) of
        Inl e \<Rightarrow> [] | Inr (results, sm) \<Rightarrow> results)"

definition scheme_summary_rows :: "calculator \<Rightarrow> string \<times> service list \<Rightarrow> summary_row list" where
  "scheme_summary_rows c sch =
     (case fst (calculate_scheme_metrics (fst sch) (snd sch) c) of
        Inl e \<Rightarrow> []
      | Inr (results, sm) \<Rightarrow>
          [\<lparr>sum_Scheme = fst sch, sum_ALCOM = ALCOM sm, sum_ASGM = ASGM sm,
            sum_NOO_max = Max_NOO sm\<rparr>])"

definition scheme_messages :: "calculator \<Rightarrow> string \<times> service list \<Rightarrow> message list" where
  "scheme_messages c sch =
     Calculating_scheme (fst sch) #
       (if snd sch = [] then [Error_processing_scheme (fst sch) ValueError]
        else concat (map (service_messages c) (snd sch)))"

section \<open>Example inputs\<close>

text \<open>The worked example of the specification: one entity, two operations, one service.\<close>

definition order_service :: service where
  "order_service = \<lparr>name = ''OrderService'', use_cases = [''CreateOrder'', ''GetOrder'']\<rparr>"

definition order_example :: calculator where
  "order_example =
     \<lparr>entities = [''Order'' \<mapsto> [''Order.id'', ''Order.status'']],
      operations =
        [''CreateOrder'' \<mapsto> \<lparr>op_read = [], op_write = [''Order.id'', ''Order.status'']\<rparr>,
         ''GetOrder'' \<mapsto> \<lparr>op_read = [''Order.id'', ''Order.status''], op_write = []\<rparr>],
      op_type_map = [''CreateOrder'' \<mapsto> ''Create'', ''GetOrder'' \<mapsto> ''Read''],
      schemes = [(''scheme'', [order_service])],
      op_weights = [''Create'' \<mapsto> 4, ''Update'' \<mapsto> 3, ''Delete'' \<mapsto> 2, ''Read'' \<mapsto> 1],
      stdout = []\<rparr>"

definition order_rows :: "metric_record list" where
  "order_rows =
     [\<lparr>rec_Scheme = ''scheme'', rec_Service = ''OrderService'', rec_NOO = 2, rec_LCOM = 0,
       rec_SGM = 1, rec_MF = 4, rec_M = 2, rec_F = 2, rec_Operation = ''CreateOrder'',
       rec_IPR = 0, rec_OPR = 2, rec_FP = 2, rec_CP = 2, rec_OT = 4, rec_O = 5, rec_DGS = 1,
       rec_FGS = truediv 4 5, rec_SGM_Operation = truediv 4 5\<rparr>,
      \<lparr>rec_Scheme = ''scheme'', rec_Service = ''OrderService'', rec_NOO = 2, rec_LCOM = 0,
       rec_SGM = 1, rec_MF = 4, rec_M = 2, rec_F = 2, rec_Operation = ''GetOrder'',
       rec_IPR = 2, rec_OPR = 0, rec_FP = 2, rec_CP = 2, rec_OT = 1, rec_O = 5, rec_DGS = 1,
       rec_FGS = truediv 1 5, rec_SGM_Operation = truediv 1 5\<rparr>]"

text \<open>Two services that name operations the catalogue of the example does not have.\<close>

definition mixed_service :: service where
  "mixed_service = \<lparr>name = ''OrderService'', use_cases = [''CreateOrder'', ''CancelOrder'']\<rparr>"

definition legacy_service :: service where
  "legacy_service = \<lparr>name = ''LegacyService'', use_cases = [''ArchiveOrder'', ''PurgeOrder'']\<rparr>"

definition mixed_rows :: "metric_record list" where
  "mixed_rows =
     [\<lparr>rec_Scheme = ''scheme'', rec_Service = ''OrderService'', rec_NOO = 2, rec_LCOM = 1 / 2,
       rec_SGM = 1, rec_MF = 2, rec_M = 2, rec_F = 2, rec_Operation = ''CreateOrder'',
       rec_IPR = 0, rec_OPR = 2, rec_FP = 1, rec_CP = 2, rec_OT = 4, rec_O = 4, rec_DGS = 1,
       rec_FGS = 1, rec_SGM_Operation = 1\<rparr>]"

text \<open>A service without use cases.\<close>

definition idle_service :: service where
  "idle_service = \<lparr>name = ''IdleService'', use_cases = []\<rparr>"






section \<open>Rounding\<close>

lemma round_half_even_of_int: "round_half_even (of_int m) = m"
  by (simp add: round_half_even_def)


lemma round_half_even_cases: "round_half_even y = \<lfloor>y\<rfloor> \<or> round_half_even y = \<lfloor>y\<rfloor> + 1"
  by (simp add: round_half_even_def Let_def)

lemma round_half_even_upper: "y \<le> of_int n \<Longrightarrow> round_half_even y \<le> n"
proof -
  assume a: "y \<le> of_int n"
  show ?thesis
  proof (cases "y = of_int n")
    case True
    then show ?thesis by (simp add: round_half_even_of_int)
  next
    case False
    with a have "y < of_int n" by simp
    then have "\<lfloor>y\<rfloor> < n" by (simp add: floor_less_iff)
    then show ?thesis using round_half_even_cases [of y] by linarith
  qed
qed

lemma round_half_even_lower: "of_int n \<le> y \<Longrightarrow> n \<le> round_half_even y"
proof -
  assume "of_int n \<le> y"
  then have "n \<le> \<lfloor>y\<rfloor>" by (simp add: le_floor_iff)
  then show ?thesis using round_half_even_cases [of y] by linarith
qed

lemma bitlen_pow_bounds:
  assumes "0 < p"
  shows "(2::rat) powi (bitlen p - 1) \<le> of_int p" and "of_int p < (2::rat) powi bitlen p"
proof -
  from assms have b: "1 \<le> bitlen p"
    by (metis bitlen_eq_zero_iff bitlen_nonneg int_one_le_iff_zero_less le_less not_less)
  from bitlen_bounds [OF assms]
  have l: "2 ^ nat (bitlen p - 1) \<le> p" and u: "p < 2 ^ nat (bitlen p)" by simp_all
  from l have "rat_of_int (2 ^ nat (bitlen p - 1)) \<le> of_int p" by (simp only: of_int_le_iff)
  then show "(2::rat) powi (bitlen p - 1) \<le> of_int p"
    using b by (simp add: power_int_def)
  from u have "rat_of_int p < of_int (2 ^ nat (bitlen p))" by (simp only: of_int_less_iff)
  then show "of_int p < (2::rat) powi bitlen p"
    using b by (simp add: power_int_def)
qed

lemma ilog2_bounds:
  assumes "0 < x"
  shows "2 powi ilog2 x \<le> x" and "x < 2 powi (ilog2 x + 1)"
proof -
  obtain p q where pq: "quotient_of x = (p, q)" by (cases "quotient_of x")
  then have q: "0 < q" and x: "x = of_int p / of_int q"
    by (simp_all add: quotient_of_denom_pos quotient_of_div)
  with assms have p: "0 < p" by (simp add: zero_less_divide_iff)
  let ?d = "bitlen p - bitlen q"
  have e: "ilog2 x = (if 2 powi ?d \<le> x then ?d else ?d - 1)"
    by (simp add: ilog2_def pq Let_def)
  have qpos: "0 < rat_of_int q" using q by simp
  have lo: "2 powi (?d - 1) \<le> x"
  proof -
    have "2 powi (?d - 1) * rat_of_int q \<le> 2 powi (?d - 1) * 2 powi bitlen q"
      using bitlen_pow_bounds(2) [OF q] by (simp add: less_imp_le)
    also have "\<dots> = 2 powi (bitlen p - 1)"
      by (simp add: power_int_add [symmetric])
    also have "\<dots> \<le> of_int p" by (rule bitlen_pow_bounds(1) [OF p])
    finally show ?thesis using qpos by (simp add: x pos_le_divide_eq)
  qed
  have hi: "x < 2 powi (?d + 1)"
  proof -
    have "rat_of_int p < 2 powi bitlen p" by (rule bitlen_pow_bounds(2) [OF p])
    also have "\<dots> = 2 powi (?d + 1) * 2 powi (bitlen q - 1)"
      by (simp add: power_int_add [symmetric])
    also have "\<dots> \<le> 2 powi (?d + 1) * of_int q"
      using bitlen_pow_bounds(1) [OF q] by simp
    finally show ?thesis using qpos by (simp add: x pos_divide_less_eq)
  qed
  show "2 powi ilog2 x \<le> x" using lo by (simp add: e)
  show "x < 2 powi (ilog2 x + 1)" using hi by (auto simp: e not_le)
qed

lemma pow2_less_imp_less:
  assumes "(2::rat) powi a < 2 powi b"
  shows "a < b"
proof (rule ccontr)
  assume "\<not> a < b"
  then have "b \<le> a" by simp
  then have "(2::rat) powi b \<le> 2 powi a" by (rule power_int_increasing) simp
  with assms show False by simp
qed

lemma ilog2_unique:
  assumes "2 powi e \<le> x" "x < 2 powi (e + 1)"
  shows "ilog2 x = e"
proof -
  have "(0::rat) < 2 powi e" by simp
  then have pos: "0 < x" using assms(1) by (rule less_le_trans)
  have "(2::rat) powi e < 2 powi (ilog2 x + 1)"
    using assms(1) ilog2_bounds(2) [OF pos] by (rule le_less_trans)
  then have 1: "e < ilog2 x + 1" by (rule pow2_less_imp_less)
  have "(2::rat) powi ilog2 x < 2 powi (e + 1)"
    using ilog2_bounds(1) [OF pos] assms(2) by (rule le_less_trans)
  then have "ilog2 x < e + 1" by (rule pow2_less_imp_less)
  with 1 show ?thesis by simp
qed

lemma float_round_0: "float_round 0 = 0"
  by (simp add: float_round_def)


lemma float_round_exact:
  assumes "\<bar>m\<bar> \<le> 2 ^ 53"
  shows "float_round (of_int m * 2 powi k) = of_int m * 2 powi k"
proof (cases "m = 0")
  case True
  then show ?thesis by (simp add: float_round_def)
next
  case False
  define x :: rat where "x = of_int m * 2 powi k"
  define e where "e = ilog2 \<bar>x\<bar>"
  define q :: rat where "q = 2 powi (e - 52)"
  have x0: "x \<noteq> 0" using False by (simp add: x_def)
  have qpos: "0 < q" by (simp add: q_def)
  have fl: "float_round x = of_int (round_half_even (x / q)) * q"
    using x0 by (simp add: float_round_def Let_def q_def e_def)
  have absx: "\<bar>x\<bar> = of_int \<bar>m\<bar> * 2 powi k" by (simp add: x_def abs_mult)
  have lo: "2 powi e \<le> \<bar>x\<bar>" using ilog2_bounds(1) [of "\<bar>x\<bar>"] x0 by (simp add: e_def)
  have m53: "rat_of_int \<bar>m\<bar> \<le> 2 ^ 53"
  proof -
    have "rat_of_int \<bar>m\<bar> \<le> of_int (2 ^ 53)" using assms by (simp only: of_int_le_iff)
    then show ?thesis by simp
  qed
  have "\<bar>x\<bar> \<le> 2 ^ 53 * 2 powi k"
    unfolding absx using m53 by (intro mult_right_mono) simp_all
  also have "\<dots> = 2 powi (53 + k)" by (simp add: power_int_add)
  finally have "(2::rat) powi e \<le> 2 powi (53 + k)" using lo by simp
  also have "\<dots> < 2 powi (54 + k)" by (rule power_int_strict_increasing) simp_all
  finally have "e < 54 + k" by (rule pow2_less_imp_less)
  then have ek: "e \<le> 53 + k" by simp
  have "\<exists>n. x / q = of_int n"
  proof (cases "e - k \<le> 52")
    case True
    then have "x / q = of_int m * 2 powi (k - e + 52)"
      by (simp add: x_def q_def power_int_diff power_int_add)
    also have "\<dots> = of_int (m * 2 ^ nat (k - e + 52))"
      using True by (simp add: power_int_def)
    finally show ?thesis by blast
  next
    case False
    with ek have ek': "e = 53 + k" by simp
    have "2 ^ 53 * 2 powi k \<le> rat_of_int \<bar>m\<bar> * 2 powi k"
      using lo by (simp add: absx ek' power_int_add)
    then have "(2::rat) ^ 53 \<le> of_int \<bar>m\<bar>" by simp
    then have "rat_of_int (2 ^ 53) \<le> of_int \<bar>m\<bar>" by simp
    then have "2 ^ 53 \<le> \<bar>m\<bar>" by (simp only: of_int_le_iff)
    with assms have m: "\<bar>m\<bar> = 2 ^ 53" by simp
    then have "m = 2 ^ 53 \<or> m = - (2 ^ 53)" by linarith
    then have "m = 2 * (m div 2)" by auto
    then have "x / q = of_int (m div 2)"
      by (simp add: x_def q_def ek' power_int_diff power_int_add)
    then show ?thesis by blast
  qed
  then obtain n where n: "x / q = of_int n" ..
  have "float_round x = of_int n * q" by (simp add: fl n round_half_even_of_int)
  also have "\<dots> = x" using n qpos by (simp add: field_simps)
  finally show ?thesis by (simp add: x_def)
qed

lemma float_round_idem: "float_round (float_round x) = float_round x"
proof (cases "x = 0")
  case True
  then show ?thesis by (simp add: float_round_def)
next
  case False
  define e where "e = ilog2 \<bar>x\<bar>"
  define q :: rat where "q = 2 powi (e - 52)"
  have qpos: "0 < q" by (simp add: q_def)
  have fl: "float_round x = of_int (round_half_even (x / q)) * 2 powi (e - 52)"
    using False by (simp add: float_round_def Let_def q_def e_def)
  have "\<bar>x\<bar> < 2 powi (e + 1)" using ilog2_bounds(2) [of "\<bar>x\<bar>"] False by (simp add: e_def)
  then have "\<bar>x\<bar> / q < 2 powi (e + 1) / q" using qpos by (simp add: divide_strict_right_mono)
  also have "\<dots> = 2 ^ 53" by (simp add: q_def power_int_diff power_int_add)
  finally have b: "\<bar>x / q\<bar> < 2 ^ 53" using qpos by simp
  have "x / q \<le> rat_of_int (2 ^ 53)" using b by (simp only: of_int_power of_int_numeral abs_less_iff) simp
  then have "round_half_even (x / q) \<le> 2 ^ 53" by (rule round_half_even_upper)
  moreover have "rat_of_int (- (2 ^ 53)) \<le> x / q"
    using b by (simp only: of_int_power of_int_numeral of_int_minus abs_less_iff) simp
  then have "- (2 ^ 53) \<le> round_half_even (x / q)" by (rule round_half_even_lower)
  ultimately have "\<bar>round_half_even (x / q)\<bar> \<le> 2 ^ 53" by simp
  then show ?thesis unfolding fl by (rule float_round_exact)
qed

lemma print_simps [simp]:
  "entities (print m c) = entities c"
  "operations (print m c) = operations c"
  "op_type_map (print m c) = op_type_map c"
  "schemes (print m c) = schemes c"
  "op_weights (print m c) = op_weights c"
  "stdout (print m c) = stdout c @ [m]"
  by (simp_all add: print_def)

lemma print_stdout_update: "print m (c\<lparr>stdout := out\<rparr>) = c\<lparr>stdout := out @ [m]\<rparr>"
  by (simp add: print_def)

lemma stdout_update_self: "c\<lparr>stdout := stdout c @ []\<rparr> = c"
  by simp

lemma incr_sum: "sum_list (map snd (incr k d)) = Suc (sum_list (map snd d))"
  by (induction k d rule: incr.induct) simp_all

lemma add_read_all: "all_params (add_read ps a) = all_params a \<union> set ps"
  by (induction ps arbitrary: a) auto

lemma add_read_read: "read_params (add_read ps a) = read_params a \<union> set ps"
  by (induction ps arbitrary: a) auto

lemma add_read_write: "write_params (add_read ps a) = write_params a"
  by (induction ps arbitrary: a) auto

lemma add_read_count:
  "sum_list (map snd (param_access_count (add_read ps a))) =
     sum_list (map snd (param_access_count a)) + length ps"
  by (induction ps arbitrary: a) (auto simp: incr_sum)

lemma add_write_all: "all_params (add_write ps a) = all_params a \<union> set ps"
  by (induction ps arbitrary: a) auto

lemma add_write_read: "read_params (add_write ps a) = read_params a"
  by (induction ps arbitrary: a) auto

lemma add_write_write: "write_params (add_write ps a) = write_params a \<union> set ps"
  by (induction ps arbitrary: a) auto

lemma add_write_count:
  "sum_list (map snd (param_access_count (add_write ps a))) =
     sum_list (map snd (param_access_count a)) + length ps"
  by (induction ps arbitrary: a) (auto simp: incr_sum)

lemmas add_simps = add_read_all add_read_read add_read_write add_read_count
  add_write_all add_write_read add_write_write add_write_count

lemma attrs_Nil [simp]:
  "service_read_attrs c [] = {}" "service_write_attrs c [] = {}" "access_count c [] = 0"
  by (simp_all add: service_read_attrs_def service_write_attrs_def access_count_def)

lemma attrs_Cons:
  "service_read_attrs c (uc # ucs) =
     (case operations c uc of None \<Rightarrow> {} | Some op \<Rightarrow> set (op_read op)) \<union> service_read_attrs c ucs"
  "service_write_attrs c (uc # ucs) =
     (case operations c uc of None \<Rightarrow> {} | Some op \<Rightarrow> set (op_write op)) \<union> service_write_attrs c ucs"
  "access_count c (uc # ucs) =
     (case operations c uc of None \<Rightarrow> 0 | Some op \<Rightarrow> length (op_read op) + length (op_write op))
       + access_count c ucs"
  by (simp_all add: service_read_attrs_def service_write_attrs_def access_count_def)

lemma attrs_print [simp]:
  "service_read_attrs (print m c) ucs = service_read_attrs c ucs"
  "service_write_attrs (print m c) ucs = service_write_attrs c ucs"
  "access_count (print m c) ucs = access_count c ucs"
  by (simp_all add: service_read_attrs_def service_write_attrs_def access_count_def)

lemma collect_params_all:
  "all_params (fst (collect_params ucs a c)) =
     all_params a \<union> service_read_attrs c ucs \<union> service_write_attrs c ucs"
  by (induction ucs arbitrary: a c) (auto simp: attrs_Cons add_simps split: option.splits)

lemma collect_params_read:
  "read_params (fst (collect_params ucs a c)) = read_params a \<union> service_read_attrs c ucs"
  by (induction ucs arbitrary: a c) (auto simp: attrs_Cons add_simps split: option.splits)

lemma collect_params_write:
  "write_params (fst (collect_params ucs a c)) = write_params a \<union> service_write_attrs c ucs"
  by (induction ucs arbitrary: a c) (auto simp: attrs_Cons add_simps split: option.splits)

lemma collect_params_count:
  "sum_list (map snd (param_access_count (fst (collect_params ucs a c)))) =
     sum_list (map snd (param_access_count a)) + access_count c ucs"
  by (induction ucs arbitrary: a c) (auto simp: attrs_Cons add_simps split: option.splits)

lemma unknown_print [simp]: "unknown (print m c) ucs = unknown c ucs"
  by (simp add: unknown_def)

lemma collect_params_state:
  "snd (collect_params ucs a c) =
     c\<lparr>stdout := stdout c @ map Warning_operation_not_found (unknown c ucs)\<rparr>"
proof (induction ucs arbitrary: a c)
  case Nil
  then show ?case by (simp add: unknown_def)
next
  case (Cons uc ucs)
  show ?case
  proof (cases "operations c uc")
    case None
    then show ?thesis by (simp add: Cons.IH) (simp add: unknown_def print_def)
  next
    case (Some op)
    then show ?thesis by (simp add: Cons.IH) (simp add: unknown_def)
  qed
qed

lemma collect_params_cong:
  "operations c' = operations c \<Longrightarrow> fst (collect_params ucs a c') = fst (collect_params ucs a c)"
proof (induction ucs arbitrary: a c c')
  case Nil
  then show ?case by simp
next
  case (Cons uc ucs)
  show ?case
  proof (cases "operations c uc")
    case None
    have "fst (collect_params ucs a (print (Warning_operation_not_found uc) c')) =
          fst (collect_params ucs a (print (Warning_operation_not_found uc) c))"
      by (rule Cons.IH) (simp add: Cons.prems)
    then show ?thesis using None Cons.prems by simp
  next
    case (Some op)
    then show ?thesis using Cons.prems Cons.IH [of c' c] by simp
  qed
qed

section \<open>Iterating over the use cases\<close>

lemma operation_loop_step:
  "operations c uc = Some op \<Longrightarrow>
     operation_loop c rp wp (uc # ucs) (w, ds) =
       operation_loop c rp wp ucs (w + use_case_weight c uc, ds @ [detail_entry c rp wp uc op])"
  by (simp add: Let_def use_case_weight_def detail_entry_def split del: if_split)

lemma operation_loop_skip:
  "operations c uc = None \<Longrightarrow>
     operation_loop c rp wp (uc # ucs) (w, ds) = operation_loop c rp wp ucs (w, ds)"
  by simp

lemma operation_loop_acc:
  "operation_loop c rp wp ucs (w, ds) =
     (w + fst (operation_loop c rp wp ucs (0, [])), ds @ snd (operation_loop c rp wp ucs (0, [])))"
proof (induction ucs arbitrary: w ds)
  case Nil
  then show ?case by simp
next
  case (Cons uc ucs)
  show ?case
  proof (cases "operations c uc")
    case None
    then show ?thesis using Cons.IH [of w ds] by (simp only: operation_loop_skip)
  next
    case (Some op)
    show ?thesis
      unfolding operation_loop_step [OF Some]
      by (subst Cons.IH, subst (2) Cons.IH, subst (3) Cons.IH) simp
  qed
qed

lemma operation_loop_Cons_Some:
  "operations c uc = Some op \<Longrightarrow>
     operation_loop c rp wp (uc # ucs) (0, []) =
       (use_case_weight c uc + fst (operation_loop c rp wp ucs (0, [])),
        detail_entry c rp wp uc op # snd (operation_loop c rp wp ucs (0, [])))"
  by (simp only: operation_loop_step) (subst operation_loop_acc, simp)

lemma detail_entry_simps [simp]:
  "Operation (detail_entry c rp wp uc op) = uc"
  "IPR (detail_entry c rp wp uc op) = card (set (op_read op))"
  "OPR (detail_entry c rp wp uc op) = card (set (op_write op))"
  "FP (detail_entry c rp wp uc op) = (if rp \<noteq> {} then card rp else 1)"
  "CP (detail_entry c rp wp uc op) = (if wp \<noteq> {} then card wp else 1)"
  "OT (detail_entry c rp wp uc op) = use_case_weight c uc"
  "DGS (detail_entry c rp wp uc op) =
     min 1 (float_add
              (truediv (of_nat (card (set (op_read op))))
                 (of_nat (max 1 (if rp \<noteq> {} then card rp else 1))))
              (truediv (of_nat (card (set (op_write op))))
                 (of_nat (max 1 (if wp \<noteq> {} then card wp else 1)))))"
  by (simp_all add: detail_entry_def)

lemma operation_loop_weight:
  "fst (operation_loop c rp wp ucs (0, [])) = (\<Sum>uc\<leftarrow>known c ucs. use_case_weight c uc)"
proof (induction ucs)
  case Nil
  then show ?case by (simp add: known_def)
next
  case (Cons uc ucs)
  then show ?case
    by (cases "operations c uc") (simp_all add: operation_loop_Cons_Some operation_loop_skip known_def del: operation_loop.simps)
qed

lemma operation_loop_names:
  "map Operation (snd (operation_loop c rp wp ucs (0, []))) = known c ucs"
proof (induction ucs)
  case Nil
  then show ?case by (simp add: known_def)
next
  case (Cons uc ucs)
  then show ?case
    by (cases "operations c uc") (simp_all add: operation_loop_Cons_Some operation_loop_skip known_def del: operation_loop.simps)
qed


lemma operation_loop_details:
  assumes "d \<in> set (snd (operation_loop c rp wp ucs (0, [])))"
  shows "FP d = (if rp \<noteq> {} then card rp else 1) \<and> CP d = (if wp \<noteq> {} then card wp else 1)
       \<and> DGS d = min 1 (float_add (truediv (of_nat (IPR d)) (of_nat (max 1 (FP d))))
                                  (truediv (of_nat (OPR d)) (of_nat (max 1 (CP d)))))
       \<and> OT d = use_case_weight c (Operation d)
       \<and> (\<exists>op. operations c (Operation d) = Some op \<and> IPR d = card (set (op_read op))
                \<and> OPR d = card (set (op_write op)))"
  using assms
proof (induction ucs)
  case Nil
  then show ?case by simp
next
  case (Cons uc ucs)
  show ?case
  proof (cases "operations c uc")
    case None
    then show ?thesis using Cons by (simp add: operation_loop_skip del: operation_loop.simps)
  next
    case (Some op)
    from Cons.prems consider "d = detail_entry c rp wp uc op"
      | "d \<in> set (snd (operation_loop c rp wp ucs (0, [])))"
      by (auto simp: operation_loop_Cons_Some [OF Some] simp del: operation_loop.simps)
    then show ?thesis
    proof cases
      case 1
      then show ?thesis by (simp add: Some split del: if_split)
    next
      case 2
      then show ?thesis by (rule Cons.IH)
    qed
  qed
qed

lemma operation_loop_cong:
  assumes "operations c' = operations c" "op_type_map c' = op_type_map c"
    "op_weights c' = op_weights c"
  shows "operation_loop c' rp wp ucs acc = operation_loop c rp wp ucs acc"
proof (induction ucs arbitrary: acc)
  case Nil
  then show ?case by simp
next
  case (Cons uc ucs)
  obtain w ds where acc: "acc = (w, ds)" by (cases acc)
  show ?case unfolding acc using assms
    by (simp add: Cons.IH Let_def split: option.splits split del: if_split)
qed

lemma fgs_entry_simps [simp]:
  "Operation (fgs_entry sw d) = Operation d"
  "IPR (fgs_entry sw d) = IPR d"
  "OPR (fgs_entry sw d) = OPR d"
  "FP (fgs_entry sw d) = FP d"
  "CP (fgs_entry sw d) = CP d"
  "OT (fgs_entry sw d) = OT d"
  "DGS (fgs_entry sw d) = DGS d"
  "FGS (fgs_entry sw d) = (if sw > 0 then truediv (of_int (OT d)) (of_int sw) else 0)"
  "SGM_Operation (fgs_entry sw d) =
     float_mul (DGS d) (if sw > 0 then truediv (of_int (OT d)) (of_int sw) else 0)"
  by (simp_all add: fgs_entry_def op_detail.defs op_detail_fgs.defs Let_def)

lemma fgs_loop_step:
  "fgs_loop sw (d # ds) sgm =
     (fgs_entry sw d # fst (fgs_loop sw ds (float_add sgm (SGM_Operation (fgs_entry sw d)))),
      snd (fgs_loop sw ds (float_add sgm (SGM_Operation (fgs_entry sw d)))))"
  by (simp add: Let_def split_beta fgs_entry_def op_detail.defs op_detail_fgs.defs
        split del: if_split)

lemma fgs_loop_fst: "fst (fgs_loop sw ds sgm) = map (fgs_entry sw) ds"
  by (induction ds arbitrary: sgm) (simp_all add: fgs_loop_step del: fgs_loop.simps(2))

lemma fgs_loop_snd:
  "snd (fgs_loop sw ds sgm) =
     foldl (\<lambda>a p. float_add a (SGM_Operation p)) sgm (map (fgs_entry sw) ds)"
  by (induction ds arbitrary: sgm) (simp_all add: fgs_loop_step del: fgs_loop.simps(2))

section \<open>The loop over the services\<close>

lemma stdout_irrelevant [simp]:
  "service_read_attrs (c\<lparr>stdout := out\<rparr>) = service_read_attrs c"
  "service_write_attrs (c\<lparr>stdout := out\<rparr>) = service_write_attrs c"
  "service_attrs (c\<lparr>stdout := out\<rparr>) = service_attrs c"
  "access_count (c\<lparr>stdout := out\<rparr>) = access_count c"
  "use_case_weight (c\<lparr>stdout := out\<rparr>) = use_case_weight c"
  "known (c\<lparr>stdout := out\<rparr>) = known c"
  "unknown (c\<lparr>stdout := out\<rparr>) = unknown c"
  "service_weight_of (c\<lparr>stdout := out\<rparr>) = service_weight_of c"
  by (simp_all add: fun_eq_iff service_read_attrs_def service_write_attrs_def
        service_attrs_def access_count_def use_case_weight_def known_def unknown_def
        service_weight_of_def)

lemma operation_loop_stdout [simp]:
  "operation_loop (c\<lparr>stdout := out\<rparr>) = operation_loop c"
  by (intro ext operation_loop_cong) simp_all

lemma stdout_irrelevant2 [simp]:
  "service_details (c\<lparr>stdout := out\<rparr>) = service_details c"
  "service_ops (c\<lparr>stdout := out\<rparr>) = service_ops c"
  "service_lcom (c\<lparr>stdout := out\<rparr>) = service_lcom c"
  "service_sgm (c\<lparr>stdout := out\<rparr>) = service_sgm c"
  "service_rows n (c\<lparr>stdout := out\<rparr>) = service_rows n c"
  "service_messages (c\<lparr>stdout := out\<rparr>) = service_messages c"
  by (simp_all add: fun_eq_iff service_details_def service_ops_def service_lcom_def
        service_sgm_def service_rows_def service_messages_def)

lemma collect_params_init:
  "collect_params ucs \<lparr>all_params = {}, param_access_count = [], read_params = {},
      write_params = {}\<rparr> c = (p, c') \<Longrightarrow>
   all_params p = service_attrs c ucs \<and> read_params p = service_read_attrs c ucs \<and>
   write_params p = service_write_attrs c ucs \<and>
   sum_list (map snd (param_access_count p)) = access_count c ucs \<and>
   c' = c\<lparr>stdout := stdout c @ map Warning_operation_not_found (unknown c ucs)\<rparr>"
  using collect_params_all [of ucs _ c] collect_params_read [of ucs _ c]
    collect_params_write [of ucs _ c] collect_params_count [of ucs _ c]
    collect_params_state [of ucs _ c]
  by (metis (no_types, lifting) fst_conv snd_conv service_attrs_def params.select_convs
        sup_bot_left list.simps(8) sum_list.Nil add_0)

lemma service_body_eq:
  "service_body scheme_name s c =
     ((service_rows scheme_name c s, service_lcom c s, service_sgm c s),
      c\<lparr>stdout := stdout c @ map Warning_operation_not_found (unknown c (use_cases s))\<rparr>)"
proof -
  obtain p c' where pc: "collect_params (use_cases s)
      \<lparr>all_params = {}, param_access_count = [], read_params = {}, write_params = {}\<rparr> c
        = (p, c')"
    by (cases "collect_params (use_cases s)
      \<lparr>all_params = {}, param_access_count = [], read_params = {}, write_params = {}\<rparr> c")
  note facts = collect_params_init [OF pc]
  have ol: "operation_loop c' (read_params p) (write_params p) (use_cases s) (0, []) =
      (service_weight_of c (use_cases s), service_details c (use_cases s))"
    using facts
    by (simp add: service_details_def service_weight_of_def prod_eq_iff operation_loop_weight)
  obtain ops sgm where fl: "fgs_loop (service_weight_of c (use_cases s))
      (service_details c (use_cases s)) 0 = (ops, sgm)"
    by (cases "fgs_loop (service_weight_of c (use_cases s)) (service_details c (use_cases s)) 0")
  have ops: "ops = service_ops c (use_cases s)"
    using fgs_loop_fst [of "service_weight_of c (use_cases s)" "service_details c (use_cases s)" 0]
    by (simp add: fl service_ops_def)
  have sgm: "sgm = service_sgm c s"
    using fgs_loop_snd [of "service_weight_of c (use_cases s)" "service_details c (use_cases s)" 0]
    by (simp add: fl service_sgm_def service_ops_def)
  have "service_body scheme_name s c =
     ((map (result_row scheme_name (name s) (length (use_cases s))
              (lcom_of (sum_list (map snd (param_access_count p))) (length (use_cases s))
                 (card (all_params p)))
              sgm (sum_list (map snd (param_access_count p))) (length (use_cases s))
              (card (all_params p)) (service_weight_of c (use_cases s))) ops,
       lcom_of (sum_list (map snd (param_access_count p))) (length (use_cases s))
                 (card (all_params p)), sgm), c')"
    unfolding service_body_def lcom_of_def
    by (simp only: Let_def pc split_conv ol fl)
  then show ?thesis
    using facts by (simp add: ops sgm service_rows_def service_lcom_def)
qed

lemma foldl_max_Max:
  "foldl max (m::nat) xs = Max (insert m (set xs))"
proof (induction xs arbitrary: m)
  case Nil
  then show ?case by simp
next
  case (Cons x xs)
  have "insert (max m x) (set xs) \<noteq> {}" by simp
  have "Max (insert (max m x) (set xs)) = Max (insert m (insert x (set xs)))"
    by (metis List.finite_set Max_insert Max_singleton finite.insertI insert_not_empty max.assoc)
  then show ?case by (simp add: Cons.IH)
qed

lemma service_loop_eq:
  "service_loop scheme_name services (results, sm) c =
     ((results @ concat (map (service_rows scheme_name c) (processed services)),
       \<lparr>ALCOM = foldl float_add (ALCOM sm) (map (service_lcom c) (processed services)),
        ASGM = foldl float_add (ASGM sm) (map (service_sgm c) (processed services)),
        Max_NOO = foldl max (Max_NOO sm) (map (\<lambda>s. length (use_cases s)) services)\<rparr>),
      c\<lparr>stdout := stdout c @ concat (map (service_messages c) services)\<rparr>)"
proof (induction services arbitrary: results sm c)
  case Nil
  then show ?case by (simp add: processed_def)
next
  case (Cons s services)
  show ?case
  proof (cases "use_cases s = []")
    case True
    then show ?thesis
      by (simp add: Cons.IH processed_def print_def service_messages_def)
  next
    case False
    then show ?thesis
      by (simp add: Cons.IH service_body_eq processed_def)
         (simp add: service_messages_def)
  qed
qed

lemma calculate_scheme_metrics_eq:
  "calculate_scheme_metrics scheme_name services c =
     (if services = [] then (Inl ValueError, c)
      else (Inr (concat (map (service_rows scheme_name c) (processed services)),
                 \<lparr>ALCOM = truediv (foldl float_add 0 (map (service_lcom c) (processed services)))
                            (of_nat (length services)),
                  ASGM = truediv (foldl float_add 0 (map (service_sgm c) (processed services)))
                            (of_nat (length services)),
                  Max_NOO = foldl max 0 (map (\<lambda>s. length (use_cases s)) services)\<rparr>),
            c\<lparr>stdout := stdout c @ concat (map (service_messages c) services)\<rparr>))"
  by (simp add: calculate_scheme_metrics_def service_loop_eq Let_def)

section \<open>The loop over the schemes\<close>

lemma calculate_scheme_metrics_stdout:
  "fst (calculate_scheme_metrics n svcs (c\<lparr>stdout := out\<rparr>)) = fst (calculate_scheme_metrics n svcs c)"
  by (simp add: calculate_scheme_metrics_eq)

lemma scheme_stdout_irrelevant [simp]:
  "scheme_rows (c\<lparr>stdout := out\<rparr>) = scheme_rows c"
  "scheme_summary_rows (c\<lparr>stdout := out\<rparr>) = scheme_summary_rows c"
  "scheme_messages (c\<lparr>stdout := out\<rparr>) = scheme_messages c"
  by (simp_all add: fun_eq_iff scheme_rows_def scheme_summary_rows_def scheme_messages_def
        calculate_scheme_metrics_stdout)

lemma calculate_scheme_metrics_state:
  "snd (calculate_scheme_metrics n svcs c) =
     c\<lparr>stdout := stdout c @ (if svcs = [] then [] else concat (map (service_messages c) svcs))\<rparr>"
  by (simp add: calculate_scheme_metrics_eq)

lemma calculate_scheme_metrics_Inl:
  "fst (calculate_scheme_metrics n svcs c) = Inl e \<longleftrightarrow> svcs = [] \<and> e = ValueError"
  by (auto simp: calculate_scheme_metrics_eq)

lemma scheme_loop_eq:
  "scheme_loop schs (all_results, scheme_summary) c =
     ((all_results @ concat (map (scheme_rows c) schs),
       scheme_summary @ concat (map (scheme_summary_rows c) schs)),
      c\<lparr>stdout := stdout c @ concat (map (scheme_messages c) schs)\<rparr>)"
proof (induction schs arbitrary: all_results scheme_summary c)
  case Nil
  then show ?case by simp
next
  case (Cons sch schs)
  obtain n svcs where sch: "sch = (n, svcs)" by (cases sch)
  define c1 where "c1 = print (Calculating_scheme n) c"
  have c1: "c1 = c\<lparr>stdout := stdout c @ [Calculating_scheme n]\<rparr>"
    by (simp add: c1_def print_def)
  obtain r c2 where r: "calculate_scheme_metrics n svcs c1 = (r, c2)"
    by (cases "calculate_scheme_metrics n svcs c1")
  have rfst: "fst (calculate_scheme_metrics n svcs c) = r"
    using r calculate_scheme_metrics_stdout [where c = c and n = n and svcs = svcs and out = "stdout c @ [Calculating_scheme n]"]
    by (simp add: c1)
  have c2: "c2 = c\<lparr>stdout := stdout c @ Calculating_scheme n #
      (if svcs = [] then [] else concat (map (service_messages c) svcs))\<rparr>"
    using r calculate_scheme_metrics_state [of n svcs c1] by (simp add: c1)
  show ?case
  proof (cases r)
    case (Inl e)
    with rfst have e: "svcs = []" "e = ValueError"
      by (simp_all add: calculate_scheme_metrics_Inl)
    have step: "scheme_loop (sch # schs) (all_results, scheme_summary) c =
        scheme_loop schs (all_results, scheme_summary)
          (print (Error_processing_scheme n e) c2)"
      unfolding sch by (simp add: c1_def [symmetric] r Inl)
    have head: "scheme_rows c sch = []" "scheme_summary_rows c sch = []"
      "scheme_messages c sch = [Calculating_scheme n, Error_processing_scheme n ValueError]"
      by (simp_all add: sch scheme_rows_def scheme_summary_rows_def scheme_messages_def
            calculate_scheme_metrics_eq e)
    show ?thesis
      unfolding step Cons.IH by (simp add: head c2 e print_def)
  next
    case (Inr p)
    obtain rows sm where p: "p = (rows, sm)" by (cases p)
    from rfst Inr have ne: "svcs \<noteq> []"
      by (auto simp: calculate_scheme_metrics_eq)
    have step: "scheme_loop (sch # schs) (all_results, scheme_summary) c =
        scheme_loop schs
          (all_results @ rows,
           scheme_summary @ [\<lparr>sum_Scheme = n, sum_ALCOM = ALCOM sm, sum_ASGM = ASGM sm,
                              sum_NOO_max = Max_NOO sm\<rparr>]) c2"
      unfolding sch by (simp add: c1_def [symmetric] r Inr p)
    have head: "scheme_rows c sch = rows"
      "scheme_summary_rows c sch = [\<lparr>sum_Scheme = n, sum_ALCOM = ALCOM sm, sum_ASGM = ASGM sm,
                              sum_NOO_max = Max_NOO sm\<rparr>]"
      "scheme_messages c sch = Calculating_scheme n # concat (map (service_messages c) svcs)"
      by (simp_all add: sch scheme_rows_def scheme_summary_rows_def scheme_messages_def rfst Inr p ne)
    show ?thesis
      unfolding step Cons.IH by (simp add: head c2 ne)
  qed
qed

lemma calculate_metrics_eq:
  "calculate_metrics c =
     (if schemes c = [] then (([], []), c\<lparr>stdout := stdout c @ [Warning_no_schemes]\<rparr>)
      else ((concat (map (scheme_rows c) (schemes c)),
             concat (map (scheme_summary_rows c) (schemes c))),
            c\<lparr>stdout := stdout c @ concat (map (scheme_messages c) (schemes c))\<rparr>))"
  by (simp add: calculate_metrics_def scheme_loop_eq print_def)

section \<open>The rows of a scheme\<close>

lemma result_row_simps [simp]:
  "rec_Scheme (result_row n sn noo lcom sgm mf m f sw p) = n"
  "rec_Service (result_row n sn noo lcom sgm mf m f sw p) = sn"
  "rec_NOO (result_row n sn noo lcom sgm mf m f sw p) = noo"
  "rec_LCOM (result_row n sn noo lcom sgm mf m f sw p) = lcom"
  "rec_SGM (result_row n sn noo lcom sgm mf m f sw p) = sgm"
  "rec_MF (result_row n sn noo lcom sgm mf m f sw p) = mf"
  "rec_M (result_row n sn noo lcom sgm mf m f sw p) = m"
  "rec_F (result_row n sn noo lcom sgm mf m f sw p) = f"
  "rec_Operation (result_row n sn noo lcom sgm mf m f sw p) = Operation p"
  "rec_IPR (result_row n sn noo lcom sgm mf m f sw p) = IPR p"
  "rec_OPR (result_row n sn noo lcom sgm mf m f sw p) = OPR p"
  "rec_FP (result_row n sn noo lcom sgm mf m f sw p) = FP p"
  "rec_CP (result_row n sn noo lcom sgm mf m f sw p) = CP p"
  "rec_OT (result_row n sn noo lcom sgm mf m f sw p) = OT p"
  "rec_O (result_row n sn noo lcom sgm mf m f sw p) = sw"
  "rec_DGS (result_row n sn noo lcom sgm mf m f sw p) = DGS p"
  "rec_FGS (result_row n sn noo lcom sgm mf m f sw p) = FGS p"
  "rec_SGM_Operation (result_row n sn noo lcom sgm mf m f sw p) = SGM_Operation p"
  by (simp_all add: result_row_def)

lemma scheme_results:
  assumes "fst (calculate_scheme_metrics scheme_name services c) = Inr (results, sm)"
  shows "services \<noteq> []"
    and "results = concat (map (service_rows scheme_name c) (processed services))"
    and "ALCOM sm = truediv (foldl float_add 0 (map (service_lcom c) (processed services)))
                      (of_nat (length services))"
    and "ASGM sm = truediv (foldl float_add 0 (map (service_sgm c) (processed services)))
                      (of_nat (length services))"
    and "Max_NOO sm = foldl max 0 (map (\<lambda>s. length (use_cases s)) services)"
  using assms by (auto simp: calculate_scheme_metrics_eq split: if_splits)

lemma service_row_cases:
  assumes "r \<in> set (service_rows scheme_name c s)"
  obtains d where "d \<in> set (service_details c (use_cases s))"
    and "r = result_row scheme_name (name s) (length (use_cases s)) (service_lcom c s)
               (service_sgm c s) (access_count c (use_cases s)) (length (use_cases s))
               (card (service_attrs c (use_cases s))) (service_weight_of c (use_cases s))
               (fgs_entry (service_weight_of c (use_cases s)) d)"
  using assms by (auto simp: service_rows_def service_ops_def)

lemma result_cases:
  assumes "fst (calculate_scheme_metrics scheme_name services c) = Inr (results, sm)"
    and "r \<in> set results"
  obtains s d where "s \<in> set services" and "use_cases s \<noteq> []"
    and "d \<in> set (service_details c (use_cases s))"
    and "r = result_row scheme_name (name s) (length (use_cases s)) (service_lcom c s)
               (service_sgm c s) (access_count c (use_cases s)) (length (use_cases s))
               (card (service_attrs c (use_cases s))) (service_weight_of c (use_cases s))
               (fgs_entry (service_weight_of c (use_cases s)) d)"
proof -
  from assms(2) scheme_results(2) [OF assms(1)]
  obtain s where s: "s \<in> set (processed services)"
    and r: "r \<in> set (service_rows scheme_name c s)"
    by auto
  from s have "s \<in> set services" "use_cases s \<noteq> []" by (simp_all add: processed_def)
  with r that show ?thesis by (elim service_row_cases) blast
qed

lemma float_round_1: "float_round 1 = 1"
  using float_round_exact [of 1 0] by simp

lemma finite_service_attrs [simp]:
  "finite (service_read_attrs c ucs)" "finite (service_write_attrs c ucs)"
  "finite (service_attrs c ucs)"
  by (auto simp: service_read_attrs_def service_write_attrs_def service_attrs_def
      split: option.splits)

lemma access_count_uniform:
  assumes "\<forall>uc\<in>set ucs. \<exists>op. operations c uc = Some op \<and> distinct (op_read op @ op_write op)
             \<and> set (op_read op @ op_write op) = A"
  shows "access_count c ucs = length ucs * card A"
proof -
  have "\<And>uc. uc \<in> set ucs \<Longrightarrow>
      (case operations c uc of None \<Rightarrow> 0 | Some op \<Rightarrow> length (op_read op) + length (op_write op))
        = card A"
  proof -
    fix uc assume "uc \<in> set ucs"
    with assms obtain op where op: "operations c uc = Some op"
      "distinct (op_read op @ op_write op)" "set (op_read op @ op_write op) = A" by blast
    from op(2,3) have "card A = length (op_read op @ op_write op)"
      using distinct_card by blast
    then show "(case operations c uc of None \<Rightarrow> 0
        | Some op \<Rightarrow> length (op_read op) + length (op_write op)) = card A"
      by (simp add: op(1))
  qed
  then have "map (\<lambda>uc. case operations c uc of None \<Rightarrow> 0
        | Some op \<Rightarrow> length (op_read op) + length (op_write op)) ucs = map (\<lambda>uc. card A) ucs"
    by (intro map_cong) simp_all
  then have "access_count c ucs = sum_list (map (\<lambda>uc. card A) ucs)"
    unfolding access_count_def by (simp only:)
  also have "\<dots> = length ucs * card A" by (induction ucs) simp_all
  finally show ?thesis .
qed

lemma lcom_of_full: "lcom_of (m * f) m f = 0"
  by (simp add: lcom_of_def float_sub_def truediv_def float_round_1 float_round_0)

lemma max_1_card: "finite A \<Longrightarrow> (if A \<noteq> {} then card A else 1) = max 1 (card A)"
  by (cases "A = {}") (simp_all add: Suc_leI card_gt_0_iff max_def)

lemma foldl_max_0:
  "xs \<noteq> [] \<Longrightarrow> foldl max (0::nat) xs = Max (set xs)"
  by (simp add: foldl_max_Max)

lemma float_add_idem: "float_round (float_add a b) = float_add a b"
  by (simp add: float_add_def float_round_idem)

lemma foldl_float_add_skip:
  assumes "float_round a = a"
  shows "foldl float_add a (map (\<lambda>s. if use_cases s = [] then 0 else f s) services) =
         foldl float_add a (map f (processed services))"
  using assms
proof (induction services arbitrary: a)
  case Nil
  then show ?case by (simp add: processed_def)
next
  case (Cons s services)
  show ?case
  proof (cases "use_cases s = []")
    case True
    have "float_add a 0 = a" using Cons.prems by (simp add: float_add_def)
    then show ?thesis using True Cons.IH [OF Cons.prems] by (simp add: processed_def)
  next
    case False
    then show ?thesis
      using Cons.IH [of "float_add a (f s)"] by (simp add: processed_def float_add_idem)
  qed
qed

lemma scheme_average_formulas:
  assumes "fst (calculate_scheme_metrics scheme_name services c) = Inr (results, sm)"
  shows "ALCOM sm =
           truediv (foldl float_add 0
                      (map (\<lambda>s. if use_cases s = [] then 0
                                else fst (snd (fst (service_body scheme_name s c)))) services))
             (of_nat (length services))"
    and "ASGM sm =
           truediv (foldl float_add 0
                      (map (\<lambda>s. if use_cases s = [] then 0
                                else snd (snd (fst (service_body scheme_name s c)))) services))
             (of_nat (length services))"
proof -
  have 1: "foldl float_add 0 (map (\<lambda>s. if use_cases s = [] then 0
              else fst (snd (fst (service_body scheme_name s c)))) services) =
           foldl float_add 0 (map (service_lcom c) (processed services))"
    using foldl_float_add_skip [of 0 "service_lcom c" services]
    by (simp add: service_body_eq float_round_0 cong: if_cong)
  have 2: "foldl float_add 0 (map (\<lambda>s. if use_cases s = [] then 0
              else snd (snd (fst (service_body scheme_name s c)))) services) =
           foldl float_add 0 (map (service_sgm c) (processed services))"
    using foldl_float_add_skip [of 0 "service_sgm c" services]
    by (simp add: service_body_eq float_round_0 cong: if_cong)
  show "ALCOM sm =
           truediv (foldl float_add 0
                      (map (\<lambda>s. if use_cases s = [] then 0
                                else fst (snd (fst (service_body scheme_name s c)))) services))
             (of_nat (length services))"
    unfolding 1 using assms by (rule scheme_results(3))
  show "ASGM sm =
           truediv (foldl float_add 0
                      (map (\<lambda>s. if use_cases s = [] then 0
                                else snd (snd (fst (service_body scheme_name s c)))) services))
             (of_nat (length services))"
    unfolding 2 using assms by (rule scheme_results(4))
qed








lemma all_unknown:
  assumes "\<forall>uc\<in>set ucs. operations c uc = None"
  shows "known c ucs = []" "unknown c ucs = ucs" "service_attrs c ucs = {}"
    "access_count c ucs = 0" "service_details c ucs = []"
proof -
  show k: "known c ucs = []" using assms by (simp add: known_def)
  show "unknown c ucs = ucs" using assms by (simp add: unknown_def)
  show "service_attrs c ucs = {}"
    using assms
    by (simp add: service_attrs_def service_read_attrs_def service_write_attrs_def)
  show "access_count c ucs = 0" using assms by (simp add: access_count_def)
  have "map Operation (service_details c ucs) = []"
    unfolding service_details_def operation_loop_names by (rule k)
  then show "service_details c ucs = []" by simp
qed

section \<open>The examples, evaluated\<close>

lemma order_eval:
  "fst (calculate_scheme_metrics ''scheme'' [order_service] order_example) =
     Inr (order_rows, \<lparr>ALCOM = 0, ASGM = 1, Max_NOO = 2\<rparr>)"
  by code_simp

lemma order_idle_eval:
  "fst (calculate_scheme_metrics ''scheme'' [idle_service, order_service] order_example) =
     Inr (order_rows, \<lparr>ALCOM = 0, ASGM = 1 / 2, Max_NOO = 2\<rparr>)"
  by code_simp

lemma order_legacy_eval:
  "fst (calculate_scheme_metrics ''scheme'' [legacy_service, order_service] order_example) =
     Inr (order_rows, \<lparr>ALCOM = 0, ASGM = 1 / 2, Max_NOO = 2\<rparr>)"
  by code_simp

lemma order_mixed_eval:
  "fst (calculate_scheme_metrics ''scheme'' [mixed_service] order_example) =
     Inr (mixed_rows, \<lparr>ALCOM = 1 / 2, ASGM = 1, Max_NOO = 2\<rparr>)"
  by code_simp

lemma mixed_rows_eval: "scheme_rows order_example (''scheme'', [mixed_service]) = mixed_rows"
  by (simp add: scheme_rows_def order_mixed_eval)




lemma order_body_eval:
  "fst (service_body ''scheme'' order_service order_example) = (order_rows, 0, 1)"
  by code_simp


lemma order_first_row: "hd order_rows \<in> set order_rows"
  by (simp add: order_rows_def)

lemma mixed_first_row: "hd mixed_rows \<in> set mixed_rows"
  by (simp add: mixed_rows_def)


section \<open>The claims\<close>

text \<open>
  Claim C1. On the worked example (entity \<open>Order\<close> with \<open>id\<close> and \<open>status\<close>, operations
  \<open>CreateOrder\<close> and \<open>GetOrder\<close>, default weights, one service holding both),
  \<open>calculate_scheme_metrics\<close> returns exactly two rows with NOO = M = F = 2, MF = 4,
  LCOM = 0, O = 5 and SGM = 1; the row of \<open>CreateOrder\<close> has IPR = 0, OPR = 2, FP = CP = 2,
  DGS = 1 and FGS = SGM_Operation = \<open>4/5\<close>, the row of \<open>GetOrder\<close> has IPR = 2, OPR = 0,
  FP = CP = 2, DGS = 1 and FGS = SGM_Operation = \<open>1/5\<close>; the scheme summary is ALCOM = 0,
  ASGM = 1, Max_NOO = 2. This holds for every scheme name. The quotients are Python's:
  \<open>4/5\<close> is the float printed as \<open>0.8\<close> and \<open>1/5\<close> the float printed as \<open>0.2\<close>, whose
  exact values are the last two conjuncts.
\<close>

theorem worked_example:
  "fst (calculate_scheme_metrics scheme_name [order_service] order_example) =
     Inr ([\<lparr>rec_Scheme = scheme_name, rec_Service = ''OrderService'', rec_NOO = 2,
            rec_LCOM = 0, rec_SGM = 1, rec_MF = 4, rec_M = 2, rec_F = 2,
            rec_Operation = ''CreateOrder'', rec_IPR = 0, rec_OPR = 2, rec_FP = 2, rec_CP = 2,
            rec_OT = 4, rec_O = 5, rec_DGS = 1, rec_FGS = truediv 4 5,
            rec_SGM_Operation = truediv 4 5\<rparr>,
           \<lparr>rec_Scheme = scheme_name, rec_Service = ''OrderService'', rec_NOO = 2,
            rec_LCOM = 0, rec_SGM = 1, rec_MF = 4, rec_M = 2, rec_F = 2,
            rec_Operation = ''GetOrder'', rec_IPR = 2, rec_OPR = 0, rec_FP = 2, rec_CP = 2,
            rec_OT = 1, rec_O = 5, rec_DGS = 1, rec_FGS = truediv 1 5,
            rec_SGM_Operation = truediv 1 5\<rparr>],
          \<lparr>ALCOM = 0, ASGM = 1, Max_NOO = 2\<rparr>)
   \<and> truediv 4 5 = 3602879701896397 / 4503599627370496
   \<and> truediv 1 5 = 3602879701896397 / 18014398509481984"
  by code_simp

text \<open>
  Claim C2. Every row that \<open>calculate_scheme_metrics\<close> emits belongs to a service of the
  scheme with a non-empty use-case list, and carries M = the length of that list, F = the
  number of distinct attributes the known operations of the list access, MF = the number
  of accesses counted (one per entry of a read or write list of a known use case), and
  LCOM = \<open>1 - MF / (M * F)\<close>, computed in float arithmetic, when \<open>M * F > 0\<close>, else 0.
  LCOM is 0 when \<open>MF = M * F\<close>, and that is the case when every use case is known and
  accesses every attribute of the service exactly once.
\<close>

theorem lcom_formula:
  assumes "fst (calculate_scheme_metrics scheme_name services c) = Inr (results, sm)"
    and "r \<in> set results"
  shows "\<exists>s\<in>set services. use_cases s \<noteq> [] \<and> rec_Service r = name s
     \<and> rec_M r = length (use_cases s)
     \<and> rec_F r = card (service_attrs c (use_cases s))
     \<and> rec_MF r = access_count c (use_cases s)
     \<and> rec_LCOM r =
         (if rec_M r * rec_F r > 0
          then float_sub 1 (truediv (of_nat (rec_MF r)) (of_nat (rec_M r * rec_F r))) else 0)
     \<and> (rec_MF r = rec_M r * rec_F r \<longrightarrow> rec_LCOM r = 0)
     \<and> ((\<forall>uc\<in>set (use_cases s). \<exists>op. operations c uc = Some op
            \<and> distinct (op_read op @ op_write op)
            \<and> set (op_read op @ op_write op) = service_attrs c (use_cases s))
          \<longrightarrow> rec_MF r = rec_M r * rec_F r)"
proof -
  from assms obtain s d where s: "s \<in> set services" "use_cases s \<noteq> []"
    and r: "r = result_row scheme_name (name s) (length (use_cases s)) (service_lcom c s)
               (service_sgm c s) (access_count c (use_cases s)) (length (use_cases s))
               (card (service_attrs c (use_cases s))) (service_weight_of c (use_cases s))
               (fgs_entry (service_weight_of c (use_cases s)) d)"
    by (rule result_cases)
  have 1: "rec_LCOM r = lcom_of (rec_MF r) (rec_M r) (rec_F r)"
    by (simp add: r service_lcom_def)
  have 2: "rec_MF r = rec_M r * rec_F r \<longrightarrow> rec_LCOM r = 0"
    by (simp add: 1 lcom_of_full)
  have 3: "(\<forall>uc\<in>set (use_cases s). \<exists>op. operations c uc = Some op
            \<and> distinct (op_read op @ op_write op)
            \<and> set (op_read op @ op_write op) = service_attrs c (use_cases s))
          \<longrightarrow> rec_MF r = rec_M r * rec_F r"
  proof
    assume "\<forall>uc\<in>set (use_cases s). \<exists>op. operations c uc = Some op
            \<and> distinct (op_read op @ op_write op)
            \<and> set (op_read op @ op_write op) = service_attrs c (use_cases s)"
    then have "access_count c (use_cases s) =
        length (use_cases s) * card (service_attrs c (use_cases s))"
      by (rule access_count_uniform)
    then show "rec_MF r = rec_M r * rec_F r" by (simp add: r)
  qed
  show ?thesis
    using s 1 2 3 by (intro bexI [of _ s]) (simp_all add: r lcom_of_def)
qed

text \<open>
  Claim C2 on the first row of the worked example, where both operations touch both
  attributes once, so that MF = 4 = M * F.
\<close>

theorem lcom_formula_witness:
  "fst (calculate_scheme_metrics ''scheme'' [order_service] order_example) =
     Inr (order_rows, \<lparr>ALCOM = 0, ASGM = 1, Max_NOO = 2\<rparr>)
   \<and> hd order_rows \<in> set order_rows
   \<and> (\<exists>s\<in>set [order_service]. use_cases s \<noteq> [] \<and> rec_Service (hd order_rows) = name s
     \<and> rec_M (hd order_rows) = length (use_cases s)
     \<and> rec_F (hd order_rows) = card (service_attrs order_example (use_cases s))
     \<and> rec_MF (hd order_rows) = access_count order_example (use_cases s)
     \<and> rec_LCOM (hd order_rows) =
         (if rec_M (hd order_rows) * rec_F (hd order_rows) > 0
          then float_sub 1 (truediv (of_nat (rec_MF (hd order_rows))) (of_nat (rec_M (hd order_rows) * rec_F (hd order_rows)))) else 0)
     \<and> (rec_MF (hd order_rows) = rec_M (hd order_rows) * rec_F (hd order_rows) \<longrightarrow> rec_LCOM (hd order_rows) = 0)
     \<and> ((\<forall>uc\<in>set (use_cases s). \<exists>op. operations order_example uc = Some op
            \<and> distinct (op_read op @ op_write op)
            \<and> set (op_read op @ op_write op) = service_attrs order_example (use_cases s))
          \<longrightarrow> rec_MF (hd order_rows) = rec_M (hd order_rows) * rec_F (hd order_rows)))
   \<and> operations order_example ''CreateOrder'' =
       Some \<lparr>op_read = [], op_write = [''Order.id'', ''Order.status'']\<rparr>
   \<and> operations order_example ''GetOrder'' =
       Some \<lparr>op_read = [''Order.id'', ''Order.status''], op_write = []\<rparr>
   \<and> service_attrs order_example (use_cases order_service) = {''Order.id'', ''Order.status''}
   \<and> rec_MF (hd order_rows) = rec_M (hd order_rows) * rec_F (hd order_rows)
   \<and> rec_LCOM (hd order_rows) = 0"
proof -
  have create: "operations order_example ''CreateOrder'' =
       Some \<lparr>op_read = [], op_write = [''Order.id'', ''Order.status'']\<rparr>"
    by (simp add: order_example_def)
  have get: "operations order_example ''GetOrder'' =
       Some \<lparr>op_read = [''Order.id'', ''Order.status''], op_write = []\<rparr>"
    by (simp add: order_example_def)
  have attrs: "service_attrs order_example (use_cases order_service) =
      {''Order.id'', ''Order.status''}"
    by (auto simp: order_service_def order_example_def service_attrs_def
          service_read_attrs_def service_write_attrs_def)
  have full: "rec_MF (hd order_rows) = rec_M (hd order_rows) * rec_F (hd order_rows)"
    by (simp add: order_rows_def)
  note concl = lcom_formula [OF order_eval order_first_row]
  from concl full have zero: "rec_LCOM (hd order_rows) = 0" by blast
  show ?thesis
    by (rule conjI [OF order_eval], rule conjI [OF order_first_row], rule conjI [OF concl],
        rule conjI [OF create], rule conjI [OF get], rule conjI [OF attrs],
        rule conjI [OF full], rule zero)
qed

text \<open>
  Claim C3. Every emitted row has FP = the number of attributes in the aggregate
  \<open>read_params\<close> of its service, floored at 1, CP likewise for \<open>write_params\<close>, IPR and OPR
  the sizes of the operation's read and write sets, and
  DGS = \<open>min(1.0, IPR / max(1, FP) + OPR / max(1, CP))\<close> in float arithmetic; so DGS never
  exceeds 1.
\<close>

theorem dgs_capped:
  assumes "fst (calculate_scheme_metrics scheme_name services c) = Inr (results, sm)"
    and "r \<in> set results"
  shows "(\<exists>s\<in>set services. use_cases s \<noteq> [] \<and> rec_Service r = name s
       \<and> rec_FP r = max 1 (card (service_read_attrs c (use_cases s)))
       \<and> rec_CP r = max 1 (card (service_write_attrs c (use_cases s))))
     \<and> (\<exists>op. operations c (rec_Operation r) = Some op
           \<and> rec_IPR r = card (set (op_read op)) \<and> rec_OPR r = card (set (op_write op)))
     \<and> rec_DGS r = min 1 (float_add (truediv (of_nat (rec_IPR r)) (of_nat (max 1 (rec_FP r))))
                                    (truediv (of_nat (rec_OPR r)) (of_nat (max 1 (rec_CP r)))))
     \<and> rec_DGS r \<le> 1"
proof -
  from assms obtain s d where s: "s \<in> set services" "use_cases s \<noteq> []"
    and d: "d \<in> set (service_details c (use_cases s))"
    and r: "r = result_row scheme_name (name s) (length (use_cases s)) (service_lcom c s)
               (service_sgm c s) (access_count c (use_cases s)) (length (use_cases s))
               (card (service_attrs c (use_cases s))) (service_weight_of c (use_cases s))
               (fgs_entry (service_weight_of c (use_cases s)) d)"
    by (rule result_cases)
  note det = operation_loop_details [OF d [unfolded service_details_def]]
  have fp: "rec_FP r = max 1 (card (service_read_attrs c (use_cases s)))"
    using det by (simp add: r max_1_card)
  have cp: "rec_CP r = max 1 (card (service_write_attrs c (use_cases s)))"
    using det by (simp add: r max_1_card)
  have ops: "\<exists>op. operations c (rec_Operation r) = Some op
           \<and> rec_IPR r = card (set (op_read op)) \<and> rec_OPR r = card (set (op_write op))"
    using det by (simp add: r)
  have dgs: "rec_DGS r = min 1 (float_add (truediv (of_nat (rec_IPR r)) (of_nat (max 1 (rec_FP r))))
                                    (truediv (of_nat (rec_OPR r)) (of_nat (max 1 (rec_CP r)))))"
    using det by (simp add: r)
  have le: "rec_DGS r \<le> 1" by (subst dgs) simp
  from s fp cp have "\<exists>s\<in>set services. use_cases s \<noteq> [] \<and> rec_Service r = name s
       \<and> rec_FP r = max 1 (card (service_read_attrs c (use_cases s)))
       \<and> rec_CP r = max 1 (card (service_write_attrs c (use_cases s)))"
    by (intro bexI [of _ s]) (simp_all add: r)
  with ops dgs le show ?thesis by blast
qed

text \<open>Claim C3 on the first row of the worked example.\<close>

theorem dgs_capped_witness:
  "fst (calculate_scheme_metrics ''scheme'' [order_service] order_example) =
     Inr (order_rows, \<lparr>ALCOM = 0, ASGM = 1, Max_NOO = 2\<rparr>)
   \<and> hd order_rows \<in> set order_rows
   \<and> ((\<exists>s\<in>set [order_service]. use_cases s \<noteq> [] \<and> rec_Service (hd order_rows) = name s
       \<and> rec_FP (hd order_rows) = max 1 (card (service_read_attrs order_example (use_cases s)))
       \<and> rec_CP (hd order_rows) = max 1 (card (service_write_attrs order_example (use_cases s))))
     \<and> (\<exists>op. operations order_example (rec_Operation (hd order_rows)) = Some op
           \<and> rec_IPR (hd order_rows) = card (set (op_read op)) \<and> rec_OPR (hd order_rows) = card (set (op_write op)))
     \<and> rec_DGS (hd order_rows) = min 1 (float_add (truediv (of_nat (rec_IPR (hd order_rows))) (of_nat (max 1 (rec_FP (hd order_rows)))))
                                    (truediv (of_nat (rec_OPR (hd order_rows))) (of_nat (max 1 (rec_CP (hd order_rows))))))
     \<and> rec_DGS (hd order_rows) \<le> 1)"
proof -
  note concl = dgs_capped [OF order_eval order_first_row]
  show ?thesis
    by (rule conjI [OF order_eval], rule conjI [OF order_first_row], rule concl)
qed




text \<open>
  Claim C5 as stated fails: in a service that lists \<open>CreateOrder\<close> and the unknown
  \<open>CancelOrder\<close>, the only row carries O = 4, the weight of \<open>CreateOrder\<close>, while the
  weights of all listed use cases sum to 5 (the unknown name would weigh 1, the default).
\<close>

theorem service_weight_counterexample:
  "use_cases mixed_service = [''CreateOrder'', ''CancelOrder'']
   \<and> operations order_example ''CancelOrder'' = None
   \<and> map rec_Operation (scheme_rows order_example (''scheme'', [mixed_service]))
       = [''CreateOrder'']
   \<and> map rec_O (scheme_rows order_example (''scheme'', [mixed_service])) = [4]
   \<and> sum_list (map (use_case_weight order_example) (use_cases mixed_service)) = 5"
  unfolding mixed_rows_eval
  by (simp add: mixed_rows_def mixed_service_def order_example_def use_case_weight_def)

text \<open>
  Claim C5, amended. Every emitted row carries OT = the weight of its operation's type
  (the type looked up in the type map with default \<open>Read\<close>, the weight looked up in the
  weight table with default 1) and O = the sum of OT over those use cases of its service
  that have an entry in the operations catalogue; use cases without an entry add nothing.
\<close>

theorem service_weight_known_only:
  assumes "fst (calculate_scheme_metrics scheme_name services c) = Inr (results, sm)"
    and "r \<in> set results"
  shows "\<exists>s\<in>set services. use_cases s \<noteq> [] \<and> rec_Service r = name s
     \<and> rec_OT r = use_case_weight c (rec_Operation r)
     \<and> rec_O r = (\<Sum>uc\<leftarrow>filter (\<lambda>uc. operations c uc \<noteq> None) (use_cases s).
                     use_case_weight c uc)"
proof -
  from assms obtain s d where s: "s \<in> set services" "use_cases s \<noteq> []"
    and d: "d \<in> set (service_details c (use_cases s))"
    and r: "r = result_row scheme_name (name s) (length (use_cases s)) (service_lcom c s)
               (service_sgm c s) (access_count c (use_cases s)) (length (use_cases s))
               (card (service_attrs c (use_cases s))) (service_weight_of c (use_cases s))
               (fgs_entry (service_weight_of c (use_cases s)) d)"
    by (rule result_cases)
  note det = operation_loop_details [OF d [unfolded service_details_def]]
  from s det show ?thesis
    by (intro bexI [of _ s]) (simp_all add: r service_weight_of_def known_def)
qed

text \<open>Claim C5, amended, on the service that lists an unknown operation.\<close>

theorem service_weight_known_only_witness:
  "fst (calculate_scheme_metrics ''scheme'' [mixed_service] order_example) =
     Inr (mixed_rows, \<lparr>ALCOM = 1 / 2, ASGM = 1, Max_NOO = 2\<rparr>)
   \<and> hd mixed_rows \<in> set mixed_rows
   \<and> (\<exists>s\<in>set [mixed_service]. use_cases s \<noteq> [] \<and> rec_Service (hd mixed_rows) = name s
     \<and> rec_OT (hd mixed_rows) = use_case_weight order_example (rec_Operation (hd mixed_rows))
     \<and> rec_O (hd mixed_rows) = (\<Sum>uc\<leftarrow>filter (\<lambda>uc. operations order_example uc \<noteq> None) (use_cases s).
                     use_case_weight order_example uc))"
proof -
  note concl = service_weight_known_only [OF order_mixed_eval mixed_first_row]
  show ?thesis
    by (rule conjI [OF order_mixed_eval], rule conjI [OF mixed_first_row], rule concl)
qed

text \<open>
  Claim C6. For a scheme with at least one service, ALCOM and ASGM are the float sums, in
  the order of the services, of the LCOM and SGM values that the loop body computes for
  each service, where a service with an empty use-case list counts as 0, divided by the
  number of all services of the scheme. The values summed are the ones on the rows of
  each service.
\<close>

theorem scheme_averages:
  assumes "fst (calculate_scheme_metrics scheme_name services c) = Inr (results, sm)"
  shows "ALCOM sm =
           truediv (foldl float_add 0
                      (map (\<lambda>s. if use_cases s = [] then 0
                                else fst (snd (fst (service_body scheme_name s c)))) services))
             (of_nat (length services))
       \<and> ASGM sm =
           truediv (foldl float_add 0
                      (map (\<lambda>s. if use_cases s = [] then 0
                                else snd (snd (fst (service_body scheme_name s c)))) services))
             (of_nat (length services))
       \<and> (\<forall>s\<in>set services. use_cases s \<noteq> [] \<longrightarrow>
            (\<forall>r\<in>set (fst (fst (service_body scheme_name s c))).
               r \<in> set results
             \<and> rec_LCOM r = fst (snd (fst (service_body scheme_name s c)))
             \<and> rec_SGM r = snd (snd (fst (service_body scheme_name s c)))))"
proof -
  have 3: "\<forall>s\<in>set services. use_cases s \<noteq> [] \<longrightarrow>
            (\<forall>r\<in>set (fst (fst (service_body scheme_name s c))).
               r \<in> set results
             \<and> rec_LCOM r = fst (snd (fst (service_body scheme_name s c)))
             \<and> rec_SGM r = snd (snd (fst (service_body scheme_name s c))))"
  proof (intro ballI impI)
    fix s r
    assume s: "s \<in> set services" "use_cases s \<noteq> []"
      and "r \<in> set (fst (fst (service_body scheme_name s c)))"
    then have r: "r \<in> set (service_rows scheme_name c s)" by (simp add: service_body_eq)
    from s have "s \<in> set (processed services)" by (simp add: processed_def)
    with r have "r \<in> set results" by (auto simp: scheme_results(2) [OF assms])
    moreover from r have "rec_LCOM r = service_lcom c s" "rec_SGM r = service_sgm c s"
      by (auto elim!: service_row_cases)
    ultimately show "r \<in> set results
             \<and> rec_LCOM r = fst (snd (fst (service_body scheme_name s c)))
             \<and> rec_SGM r = snd (snd (fst (service_body scheme_name s c)))"
      by (simp add: service_body_eq)
  qed
  show ?thesis
    using scheme_average_formulas [OF assms] 3 by blast
qed

text \<open>
  Claim C6 on a scheme of a service without use cases and the service of the worked
  example: ASGM is 1 / 2.
\<close>

theorem scheme_averages_witness:
  "fst (calculate_scheme_metrics ''scheme'' [idle_service, order_service] order_example) =
     Inr (order_rows, \<lparr>ALCOM = 0, ASGM = 1 / 2, Max_NOO = 2\<rparr>)
   \<and> ALCOM \<lparr>ALCOM = 0, ASGM = 1 / 2, Max_NOO = 2\<rparr> =
       truediv (foldl float_add 0
                  (map (\<lambda>s. if use_cases s = [] then 0
                            else fst (snd (fst (service_body ''scheme'' s order_example))))
                     [idle_service, order_service]))
         (of_nat (length [idle_service, order_service]))
   \<and> ASGM \<lparr>ALCOM = 0, ASGM = 1 / 2, Max_NOO = 2\<rparr> =
       truediv (foldl float_add 0
                  (map (\<lambda>s. if use_cases s = [] then 0
                            else snd (snd (fst (service_body ''scheme'' s order_example))))
                     [idle_service, order_service]))
         (of_nat (length [idle_service, order_service]))
   \<and> use_cases idle_service = []
   \<and> order_service \<in> set [idle_service, order_service]
   \<and> use_cases order_service \<noteq> []
   \<and> fst (service_body ''scheme'' order_service order_example) = (order_rows, 0, 1)
   \<and> hd order_rows \<in> set order_rows
   \<and> rec_LCOM (hd order_rows) =
       fst (snd (fst (service_body ''scheme'' order_service order_example)))
   \<and> rec_SGM (hd order_rows) =
       snd (snd (fst (service_body ''scheme'' order_service order_example)))"
proof -
  have idle: "use_cases idle_service = []" by (simp add: idle_service_def)
  have mem: "order_service \<in> set [idle_service, order_service]" by simp
  have ne: "use_cases order_service \<noteq> []" by (simp add: order_service_def)
  have row: "hd order_rows \<in> set (fst (fst (service_body ''scheme'' order_service order_example)))"
    by (simp add: order_body_eval order_first_row)
  note concl = scheme_averages [OF order_idle_eval]
  note each = concl [THEN conjunct2, THEN conjunct2, rule_format, OF mem ne row]
  show ?thesis
    by (rule conjI [OF order_idle_eval], rule conjI [OF concl [THEN conjunct1]],
        rule conjI [OF concl [THEN conjunct2, THEN conjunct1]], rule conjI [OF idle],
        rule conjI [OF mem], rule conjI [OF ne], rule conjI [OF order_body_eval],
        rule conjI [OF order_first_row], rule each [THEN conjunct2])
qed

text \<open>
  Claim C7. For a scheme with at least one service, Max_NOO is the maximum of the lengths
  of the use-case lists of its services, whatever the lists contain.
\<close>

theorem max_noo_is_maximum:
  assumes "fst (calculate_scheme_metrics scheme_name services c) = Inr (results, sm)"
  shows "Max_NOO sm = Max ((\<lambda>s. length (use_cases s)) ` set services)"
proof -
  from assms have ne: "services \<noteq> []" by (rule scheme_results(1))
  have "Max_NOO sm = foldl max 0 (map (\<lambda>s. length (use_cases s)) services)"
    using assms by (rule scheme_results(5))
  also have "\<dots> = Max (set (map (\<lambda>s. length (use_cases s)) services))"
    using ne by (intro foldl_max_0) simp
  finally show ?thesis by simp
qed

text \<open>Claim C7 on the scheme with a service without use cases.\<close>

theorem max_noo_is_maximum_witness:
  "fst (calculate_scheme_metrics ''scheme'' [idle_service, order_service] order_example) =
     Inr (order_rows, \<lparr>ALCOM = 0, ASGM = 1 / 2, Max_NOO = 2\<rparr>)
   \<and> Max_NOO \<lparr>ALCOM = 0, ASGM = 1 / 2, Max_NOO = 2\<rparr> = Max ((\<lambda>s. length (use_cases s)) ` set [idle_service, order_service])"
proof -
  note concl = max_noo_is_maximum [OF order_idle_eval]
  show ?thesis
    by (rule conjI [OF order_idle_eval], rule concl)
qed



text \<open>
  Claim C9. \<open>calculate_metrics\<close> leaves the entity catalogue, the operations, the type
  map, the weight table and the schemes of the instance unchanged, it only appends lines
  to the console, and a second call on the instance it leaves returns the same two
  collections.
\<close>

theorem calculate_metrics_frame:
  "entities (snd (calculate_metrics c)) = entities c
   \<and> operations (snd (calculate_metrics c)) = operations c
   \<and> op_type_map (snd (calculate_metrics c)) = op_type_map c
   \<and> op_weights (snd (calculate_metrics c)) = op_weights c
   \<and> schemes (snd (calculate_metrics c)) = schemes c
   \<and> (\<exists>out. stdout (snd (calculate_metrics c)) = stdout c @ out)
   \<and> fst (calculate_metrics (snd (calculate_metrics c))) = fst (calculate_metrics c)"
proof -
  have "\<exists>out. snd (calculate_metrics c) = c\<lparr>stdout := stdout c @ out\<rparr>"
    by (cases "schemes c = []") (auto simp: calculate_metrics_eq intro!: exI)
  then obtain out where c': "snd (calculate_metrics c) = c\<lparr>stdout := stdout c @ out\<rparr>" ..
  have "fst (calculate_metrics (c\<lparr>stdout := stdout c @ out\<rparr>)) = fst (calculate_metrics c)"
    by (simp add: calculate_metrics_eq)
  then show ?thesis by (simp add: c')
qed

text \<open>
  Claim C10. For a service of a scheme whose use-case list is not empty and names only
  operations absent from the catalogue, the loop body emits no row, prints one warning per
  name and yields LCOM = 0 and SGM = 0; the iteration of the service loop adds these zeros
  to the two sums and raises Max_NOO to at least the length of the list; in the result of
  the scheme Max_NOO is at least that length, and ALCOM and ASGM divide by the number of
  all services.
\<close>

theorem unknown_only_service:
  assumes "fst (calculate_scheme_metrics scheme_name services c) = Inr (results, sm)"
    and "s \<in> set services" and "use_cases s \<noteq> []"
    and "\<forall>uc\<in>set (use_cases s). operations c uc = None"
  shows "service_body scheme_name s c =
           (([], 0, 0),
            c\<lparr>stdout := stdout c @ map Warning_operation_not_found (use_cases s)\<rparr>)
     \<and> (\<forall>rest acc_results acc.
          service_loop scheme_name (s # rest) (acc_results, acc) c =
            service_loop scheme_name rest
              (acc_results,
               acc\<lparr>Max_NOO := max (Max_NOO acc) (length (use_cases s)),
                   ALCOM := float_add (ALCOM acc) 0, ASGM := float_add (ASGM acc) 0\<rparr>)
              (c\<lparr>stdout := stdout c @ map Warning_operation_not_found (use_cases s)\<rparr>))
     \<and> length (use_cases s) \<le> Max_NOO sm
     \<and> ALCOM sm =
           truediv (foldl float_add 0
                      (map (\<lambda>t. if use_cases t = [] then 0
                                else fst (snd (fst (service_body scheme_name t c)))) services))
             (of_nat (length services))
     \<and> ASGM sm =
           truediv (foldl float_add 0
                      (map (\<lambda>t. if use_cases t = [] then 0
                                else snd (snd (fst (service_body scheme_name t c)))) services))
             (of_nat (length services))"
proof -
  note u = all_unknown [OF assms(4)]
  have body: "service_body scheme_name s c =
           (([], 0, 0),
            c\<lparr>stdout := stdout c @ map Warning_operation_not_found (use_cases s)\<rparr>)"
    by (simp add: service_body_eq service_rows_def service_ops_def service_lcom_def
          service_sgm_def lcom_of_def u)
  have step: "service_loop scheme_name (s # rest) (acc_results, acc) c =
            service_loop scheme_name rest
              (acc_results,
               acc\<lparr>Max_NOO := max (Max_NOO acc) (length (use_cases s)),
                   ALCOM := float_add (ALCOM acc) 0, ASGM := float_add (ASGM acc) 0\<rparr>)
              (c\<lparr>stdout := stdout c @ map Warning_operation_not_found (use_cases s)\<rparr>)"
    for rest acc_results acc
    using assms(3) by (simp add: body)
  have "Max_NOO sm = Max ((\<lambda>t. length (use_cases t)) ` set services)"
    using scheme_results(1,5) [OF assms(1)] by (simp add: foldl_max_0)
  then have mx: "length (use_cases s) \<le> Max_NOO sm"
    using assms(2) by simp
  from body step mx scheme_average_formulas [OF assms(1)] show ?thesis by blast
qed

text \<open>
  Claim C10 on a scheme of a service that names two unknown operations and the service of
  the worked example.
\<close>

theorem unknown_only_service_witness:
  "fst (calculate_scheme_metrics ''scheme'' [legacy_service, order_service] order_example) =
     Inr (order_rows, \<lparr>ALCOM = 0, ASGM = 1 / 2, Max_NOO = 2\<rparr>)
   \<and> legacy_service \<in> set [legacy_service, order_service]
   \<and> use_cases legacy_service \<noteq> []
   \<and> use_cases legacy_service = [''ArchiveOrder'', ''PurgeOrder'']
   \<and> operations order_example ''ArchiveOrder'' = None
   \<and> operations order_example ''PurgeOrder'' = None
   \<and> (service_body ''scheme'' legacy_service order_example =
           (([], 0, 0),
            order_example\<lparr>stdout := stdout order_example @ map Warning_operation_not_found (use_cases legacy_service)\<rparr>)
     \<and> (\<forall>rest acc_results acc.
          service_loop ''scheme'' (legacy_service # rest) (acc_results, acc) order_example =
            service_loop ''scheme'' rest
              (acc_results,
               acc\<lparr>Max_NOO := max (Max_NOO acc) (length (use_cases legacy_service)),
                   ALCOM := float_add (ALCOM acc) 0, ASGM := float_add (ASGM acc) 0\<rparr>)
              (order_example\<lparr>stdout := stdout order_example @ map Warning_operation_not_found (use_cases legacy_service)\<rparr>))
     \<and> length (use_cases legacy_service) \<le> Max_NOO \<lparr>ALCOM = 0, ASGM = 1 / 2, Max_NOO = 2\<rparr>
     \<and> ALCOM \<lparr>ALCOM = 0, ASGM = 1 / 2, Max_NOO = 2\<rparr> =
           truediv (foldl float_add 0
                      (map (\<lambda>t. if use_cases t = [] then 0
                                else fst (snd (fst (service_body ''scheme'' t order_example)))) [legacy_service, order_service]))
             (of_nat (length [legacy_service, order_service]))
     \<and> ASGM \<lparr>ALCOM = 0, ASGM = 1 / 2, Max_NOO = 2\<rparr> =
           truediv (foldl float_add 0
                      (map (\<lambda>t. if use_cases t = [] then 0
                                else snd (snd (fst (service_body ''scheme'' t order_example)))) [legacy_service, order_service]))
             (of_nat (length [legacy_service, order_service])))"
proof -
  have h2: "legacy_service \<in> set [legacy_service, order_service]" by simp
  have h3: "use_cases legacy_service \<noteq> []" by (simp add: legacy_service_def)
  have ucs: "use_cases legacy_service = [''ArchiveOrder'', ''PurgeOrder'']"
    by (simp add: legacy_service_def)
  have n1: "operations order_example ''ArchiveOrder'' = None" by (simp add: order_example_def)
  have n2: "operations order_example ''PurgeOrder'' = None" by (simp add: order_example_def)
  have h4: "\<forall>uc\<in>set (use_cases legacy_service). operations order_example uc = None"
    by (simp add: ucs n1 n2)
  note concl = unknown_only_service [OF order_legacy_eval h2 h3 h4]
  show ?thesis
    by (rule conjI [OF order_legacy_eval], rule conjI [OF h2], rule conjI [OF h3],
        rule conjI [OF ucs], rule conjI [OF n1], rule conjI [OF n2], rule concl)
qed

end
